theory Spec2Isabelle
  imports Complex_Main
begin

section \<open>Outcomes of a call\<close>

text \<open>
  A Go call either returns, aborts with a run-time panic (an index or slice bound out of
  range, a negative capacity given to \<^verbatim>\<open>make\<close>), or never returns.  Loops whose
  termination is not evident from the code are run on fuel; \<open>OutOfFuel\<close> says that the
  fuel did not suffice, and a call that yields \<open>OutOfFuel\<close> for every amount of fuel is
  a call that never returns.  \<open>Races\<close> says that the call has started goroutines that
  read and write shared data without synchronisation (\<^verbatim>\<open>relaxEdgesParallel\<close>): what it
  returns then depends on the scheduler and is not a function of its arguments; the
  section on \<^verbatim>\<open>relaxEdgesParallel\<close> below follows the goroutines under a given
  schedule.
\<close>

datatype 'a outcome = Returns 'a | Panics | OutOfFuel | Races

fun obind :: "'a outcome \<Rightarrow> ('a \<Rightarrow> 'b outcome) \<Rightarrow> 'b outcome" where
  "obind (Returns x) f = f x"
| "obind Panics f = Panics"
| "obind OutOfFuel f = OutOfFuel"
| "obind Races f = Races"

section \<open>Package ds: the block sequence\<close>

text \<open>
  \<^verbatim>\<open>const Infinity = math.MaxFloat64\<close>.  A \<^verbatim>\<open>float64\<close> is modelled by a real
  number: comparisons are exact, rounding of sums is not modelled, NaN and the IEEE
  infinities are outside the model.  Indices and keys (Go \<^verbatim>\<open>int\<close>) are natural
  numbers: a negative index panics exactly as one that is too large does.
\<close>

definition Infinity :: real where
  "Infinity = (2 ^ 53 - 1) * 2 ^ 971"

record Item =
  Key :: nat
  Value :: real

text \<open>
  A block is a singly linked list of items with a size and an upper bound.  The list is
  modelled by the \<open>items\<close> from \<^verbatim>\<open>head\<close> on; \<^verbatim>\<open>size\<close> is kept equal to the length
  of the list by every operation of the package and is read as \<open>length (items b)\<close>;
  \<^verbatim>\<open>tail\<close> is written but never read.
\<close>

record block =
  items :: "Item list"
  upperBound :: real

record DataStructure =
  M :: int
  B :: real
  Count :: int
  d0 :: "block list"
  d1 :: "block list"

definition newBlock :: block where
  "newBlock = \<lparr>items = [], upperBound = 0\<rparr>"

definition NewDataStructure :: "int \<Rightarrow> DataStructure" where
  "NewDataStructure m = \<lparr>M = m, B = Infinity, Count = 0, d0 = [], d1 = []\<rparr>"

text \<open>
  \<^verbatim>\<open>sort.Search(n, f)\<close> of the Go library: binary search for the least index in
  \<open>[0, n]\<close> from which \<open>f\<close> holds, written as the library's loop so that its result is
  also fixed where \<open>f\<close> is not monotone.
\<close>

function Search_loop :: "(nat \<Rightarrow> bool) \<Rightarrow> nat \<Rightarrow> nat \<Rightarrow> nat" where
  "Search_loop f i j =
     (if i < j then
        (let h = (i + j) div 2
         in if \<not> f h then Search_loop f (h + 1) j else Search_loop f i h)
      else i)"
  by pat_completeness auto
termination
  by (relation "measure (\<lambda>(f, i, j). j - i)") auto

declare Search_loop.simps [simp del]

definition Search :: "nat \<Rightarrow> (nat \<Rightarrow> bool) \<Rightarrow> nat" where
  "Search n f = Search_loop f 0 n"

text \<open>
  \<^verbatim>\<open>sort.Slice(items, func(i, j) { return items[i].Value < items[j].Value })\<close> is
  modelled by the stable insertion sort \<open>sort_key Value\<close>.  The Go library sorts slices
  of at most 12 elements by insertion sort as well; on longer slices the two agree up to
  the order of items of equal value.
\<close>

definition sortItems :: "Item list \<Rightarrow> Item list" where
  "sortItems its = sort_key Value its"

text \<open>
  \<^verbatim>\<open>split\<close>: sorts the items of block \<open>d1Index\<close>, keeps the lower half in place with
  the value at \<open>mid - 1\<close> as its new upper bound and inserts the upper half after it
  under the old upper bound.  \<^verbatim>\<open>items[mid-1]\<close> panics when \<open>mid = 0\<close>.
\<close>

definition split :: "DataStructure \<Rightarrow> nat \<Rightarrow> DataStructure outcome" where
  "split ds d1Index =
     (let b = d1 ds ! d1Index;
          its = sortItems (items b);
          mid = length its div 2
      in if mid = 0 then Panics
         else
           (let newB = \<lparr>items = drop mid its, upperBound = upperBound b\<rparr>;
                b' = \<lparr>items = take mid its, upperBound = Value (its ! (mid - 1))\<rparr>
            in Returns (ds\<lparr>d1 := take d1Index (d1 ds) @ [b', newB] @ drop (d1Index + 1) (d1 ds)\<rparr>)))"

definition Insert :: "DataStructure \<Rightarrow> nat \<Rightarrow> real \<Rightarrow> DataStructure outcome" where
  "Insert ds key val =
     (let item = \<lparr>Key = key, Value = val\<rparr>;
          idx0 = Search (length (d1 ds)) (\<lambda>i. upperBound (d1 ds ! i) \<ge> val);
          blocks = (if idx0 = length (d1 ds) \<and> length (d1 ds) = 0
                    then [newBlock\<lparr>upperBound := Infinity\<rparr>] else d1 ds);
          idx = (if idx0 = length (d1 ds)
                 then (if length (d1 ds) = 0 then 0 else length (d1 ds) - 1)
                 else idx0);
          targetBlock = blocks ! idx;
          targetBlock' = targetBlock\<lparr>items := item # items targetBlock\<rparr>;
          ds' = ds\<lparr>Count := Count ds + 1, d1 := blocks[idx := targetBlock']\<rparr>
      in if int (length (items targetBlock')) > M ds then split ds' idx else Returns ds')"

text \<open>
  \<^verbatim>\<open>BatchPrepend\<close>.  The loop \<^verbatim>\<open>for i := 0; i < len(items); i += ds.M\<close> cuts the
  sorted items into chunks; each chunk is pushed item by item onto the head of a new
  block's list (so the list holds the chunk in reverse), and the block is put in front of
  \<open>d0\<close>.  With \<open>M = 0\<close> the first chunk is empty and \<^verbatim>\<open>chunk[len(chunk)-1]\<close> panics;
  with \<open>M < 0\<close> the slice expression \<^verbatim>\<open>items[i:end]\<close> panics.
\<close>

fun chunkToList :: "Item list \<Rightarrow> Item list \<Rightarrow> Item list" where
  "chunkToList [] head = head"
| "chunkToList (c # chunk) head = chunkToList chunk (c # head)"

function BatchPrepend_loop :: "nat \<Rightarrow> Item list \<Rightarrow> block list \<Rightarrow> block list" where
  "BatchPrepend_loop m rest d =
     (if rest = [] \<or> m = 0 then d
      else
        (let chunk = take m rest;
             blk = \<lparr>items = chunkToList chunk [], upperBound = Value (last chunk)\<rparr>
         in BatchPrepend_loop m (drop m rest) (blk # d)))"
  by pat_completeness auto
termination
  by (relation "measure (\<lambda>(m, rest, d). length rest)") auto

declare BatchPrepend_loop.simps [simp del]

definition BatchPrepend :: "DataStructure \<Rightarrow> Item list \<Rightarrow> DataStructure outcome" where
  "BatchPrepend ds its =
     (if length its = 0 then Returns ds
      else if M ds \<le> 0 then Panics
      else Returns (ds\<lparr>Count := Count ds + int (length its),
                        d0 := BatchPrepend_loop (nat (M ds)) (sortItems its) (d0 ds)\<rparr>))"

text \<open>
  \<^verbatim>\<open>Pull\<close>.  The closure \<^verbatim>\<open>drain(b, limit)\<close> moves items from the head of the
  block's list to \<open>collected\<close> while \<open>collected\<close> is shorter than \<open>limit\<close>; the
  number of items moved is taken off \<open>Count\<close> afterwards.
\<close>

fun drain :: "Item list \<Rightarrow> Item list \<Rightarrow> int \<Rightarrow> Item list \<times> Item list" where
  "drain [] collected limit = ([], collected)"
| "drain (it # rest) collected limit =
     (if int (length collected) < limit then drain rest (collected @ [it]) limit
      else (it # rest, collected))"

definition sortBlock :: "block \<Rightarrow> block" where
  "sortBlock b = (if length (items b) < 2 then b else b\<lparr>items := sortItems (items b)\<rparr>)"

definition peekBlock :: "block \<Rightarrow> real" where
  "peekBlock b = (case items b of [] \<Rightarrow> Infinity | it # _ \<Rightarrow> Value it)"

fun drainD0 :: "int \<Rightarrow> block list \<Rightarrow> Item list \<Rightarrow> block list \<times> Item list" where
  "drainD0 m [] collected = ([], collected)"
| "drainD0 m (blk # blks) collected =
     (let (its, collected') =
            (if int (length collected) < m then drain (items blk) collected m
             else (items blk, collected));
          (active, final) = drainD0 m blks collected'
      in (if length its > 0 then blk\<lparr>items := its\<rparr> # active else active, final))"

fun drainD1 :: "int \<Rightarrow> block list \<Rightarrow> Item list \<Rightarrow> block list \<times> Item list" where
  "drainD1 m [] collected = ([], collected)"
| "drainD1 m (blk # blks) collected =
     (let (blk', collected') =
            (if int (length collected) < m
             then (let (its, c) = drain (items (sortBlock blk)) collected m
                   in (blk\<lparr>items := its\<rparr>, c))
             else (blk, collected));
          (active, final) = drainD1 m blks collected'
      in (if length (items blk') > 0 then blk' # active else active, final))"

definition Pull :: "DataStructure \<Rightarrow> ((Item list \<times> real) \<times> DataStructure) outcome" where
  "Pull ds =
     (if M ds < 0 then Panics
      else
        (let (activeD0, c0) = drainD0 (M ds) (d0 ds) [];
             (activeD1, collected) =
               (if int (length c0) < M ds then drainD1 (M ds) (d1 ds) c0 else (d1 ds, c0));
             cnt = Count ds - int (length collected);
             d1' = (if cnt > 0 \<and> activeD0 = [] \<and> activeD1 \<noteq> []
                    then sortBlock (hd activeD1) # tl activeD1 else activeD1);
             Bi = (if cnt > 0 then
                     (if activeD0 \<noteq> [] then peekBlock (hd activeD0)
                      else if d1' \<noteq> [] then peekBlock (hd d1')
                      else Infinity)
                   else Infinity)
         in Returns ((collected, Bi), ds\<lparr>Count := cnt, d0 := activeD0, d1 := d1'\<rparr>)))"

section \<open>Package graph\<close>

record Edge =
  To :: nat
  Weight :: real

record Graph =
  V :: nat
  Adj :: "Edge list list"

definition NewGraph :: "nat \<Rightarrow> Graph" where
  "NewGraph v = \<lparr>V = v, Adj = replicate v []\<rparr>"

definition appendEdge :: "Edge list list \<Rightarrow> nat \<Rightarrow> Edge \<Rightarrow> Edge list list" where
  "appendEdge adj u e = adj[u := adj ! u @ [e]]"

text \<open>
  \<^verbatim>\<open>AddEdge\<close> has a single statement, \<^verbatim>\<open>g.Adj[u] = append(g.Adj[u], Edge{v, w})\<close>:
  it panics when \<open>u\<close> is not an index of \<open>Adj\<close> and looks at neither \<open>v\<close> nor \<open>w\<close>.
\<close>

definition AddEdge :: "Graph \<Rightarrow> nat \<Rightarrow> nat \<Rightarrow> real \<Rightarrow> Graph outcome" where
  "AddEdge g u v w =
     (if u < length (Adj g)
      then Returns (g\<lparr>Adj := appendEdge (Adj g) u \<lparr>To = v, Weight = w\<rparr>\<rparr>)
      else Panics)"

text \<open>
  The field \<^verbatim>\<open>G\<close> of \<^verbatim>\<open>TransformedGraph\<close> is called \<open>TG\<close> here, since the solver
  has a field \<open>G\<close> of its own.
\<close>

record TransformedGraph =
  TG :: Graph
  OriginalTo :: "nat list"
  NewToOrigin :: "nat list"

text \<open>
  \<^verbatim>\<open>ToConstantDegree\<close>, loop by loop.  The first loop counts in-degrees; it panics
  when a row \<open>u < V\<close> of \<open>Adj\<close> is missing or an edge of such a row points outside
  \<open>[0, V)\<close>, which is what \<open>inRange\<close> excludes.  The later loops index only with
  values the first loop has checked.
\<close>

definition inRange :: "Graph \<Rightarrow> bool" where
  "inRange g \<longleftrightarrow>
     V g \<le> length (Adj g) \<and>
     list_all (\<lambda>u. list_all (\<lambda>e. To e < V g) (Adj g ! u)) [0..<V g]"

definition countInDegree :: "Graph \<Rightarrow> nat list" where
  "countInDegree g =
     fold (\<lambda>u. fold (\<lambda>e inDegree. inDegree[To e := inDegree ! To e + 1]) (Adj g ! u))
       [0..<V g] (replicate (V g) 0)"

definition layoutStep ::
  "Graph \<Rightarrow> nat list \<Rightarrow> nat \<Rightarrow> nat list \<times> nat list \<times> nat \<Rightarrow> nat list \<times> nat list \<times> nat" where
  "layoutStep g inDegree u = (\<lambda>(starts, sizes, currentID).
     let sz0 = length (Adj g ! u) + inDegree ! u;
         sz = (if sz0 = 0 then 1 else sz0)
     in (starts[u := currentID], sizes[u := sz], currentID + sz))"

definition layout :: "Graph \<Rightarrow> nat list \<Rightarrow> nat list \<times> nat list \<times> nat" where
  "layout g inDegree =
     fold (layoutStep g inDegree) [0..<V g] (replicate (V g) 0, replicate (V g) 0, 0)"

definition cycleStep ::
  "nat \<Rightarrow> nat \<Rightarrow> nat \<Rightarrow> nat \<Rightarrow> Edge list list \<times> nat list \<Rightarrow> Edge list list \<times> nat list" where
  "cycleStep u start sz i = (\<lambda>(adj, newToOrigin).
     let curr = start + i;
         nxt = start + (i + 1) mod sz
     in (appendEdge adj curr \<lparr>To = nxt, Weight = 0\<rparr>, newToOrigin[curr := u]))"

definition buildCycles ::
  "nat list \<Rightarrow> nat list \<Rightarrow> nat \<Rightarrow> Edge list list \<times> nat list \<Rightarrow> Edge list list \<times> nat list" where
  "buildCycles starts sizes n =
     fold (\<lambda>u. fold (cycleStep u (starts ! u) (sizes ! u)) [0..<sizes ! u]) [0..<n]"

definition realStep ::
  "nat list \<Rightarrow> nat \<Rightarrow> Edge \<Rightarrow> nat list \<times> Edge list list \<Rightarrow> nat list \<times> Edge list list" where
  "realStep starts u e = (\<lambda>(slots, adj).
     let v = To e;
         w = Weight e;
         uSlot = slots ! u;
         slots1 = slots[u := uSlot + 1];
         uNode = starts ! u + uSlot;
         vSlot = slots1 ! v;
         slots2 = slots1[v := vSlot + 1];
         vNode = starts ! v + vSlot
     in (slots2, appendEdge adj uNode \<lparr>To = vNode, Weight = w\<rparr>))"

definition addRealEdges ::
  "Graph \<Rightarrow> nat list \<Rightarrow> nat list \<times> Edge list list \<Rightarrow> nat list \<times> Edge list list" where
  "addRealEdges g starts = fold (\<lambda>u. fold (realStep starts u) (Adj g ! u)) [0..<V g]"

definition ToConstantDegree :: "Graph \<Rightarrow> TransformedGraph outcome" where
  "ToConstantDegree g =
     (if \<not> inRange g then Panics
      else
        (let inDegree = countInDegree g;
             (starts, sizes, currentID) = layout g inDegree;
             (adjC, newToOrigin) =
               buildCycles starts sizes (V g) (replicate currentID [], replicate currentID 0);
             (slots, adjR) = addRealEdges g starts (replicate (V g) 0, adjC)
         in Returns \<lparr>TG = \<lparr>V = currentID, Adj = adjR\<rparr>,
                      OriginalTo = starts, NewToOrigin = newToOrigin\<rparr>))"

text \<open>
  \<^verbatim>\<open>MapDistances\<close>: \<^verbatim>\<open>res[i] = dist[startNode]\<close> for every original vertex.  The
  optional \<^verbatim>\<open>target\<close> buffer only saves an allocation and is left out.
\<close>

definition MapDistances :: "TransformedGraph \<Rightarrow> real list \<Rightarrow> real list outcome" where
  "MapDistances tg dists =
     (if list_all (\<lambda>startNode. startNode < length dists) (OriginalTo tg)
      then Returns (map (\<lambda>startNode. dists ! startNode) (OriginalTo tg))
      else Panics)"

text \<open>The degrees of a vertex of an adjacency list.\<close>

definition outDegree :: "Edge list list \<Rightarrow> nat \<Rightarrow> nat" where
  "outDegree adj x = length (adj ! x)"

definition inDegreeOf :: "Edge list list \<Rightarrow> nat \<Rightarrow> nat" where
  "inDegreeOf adj x = length (filter (\<lambda>e. To e = x) (concat adj))"

section \<open>Package sssp: the solver\<close>

text \<open>
  The solver owns the distance vector \<open>Dist\<close>; \<open>K\<close> and \<open>T\<close> are the parameters
  \<open>k\<close> and \<open>t\<close>.  The buffers, the worker pool and the event listener (a listener
  that does nothing, unless one is installed) have no effect on distances and are left
  out; \<open>numWorkers\<close> decides between the sequential and the parallel relaxation.
\<close>

record Solver =
  G :: Graph
  Dist :: "real list"
  K :: nat
  T :: nat
  numWorkers :: nat

text \<open>
  \<^verbatim>\<open>NewSolver\<close> derives \<open>k\<close> and \<open>t\<close> from \<open>log n\<close> in floating point; the real
  logarithm and power stand for \<^verbatim>\<open>math.Log\<close> and \<^verbatim>\<open>math.Pow\<close> here.  The number
  of workers is \<^verbatim>\<open>runtime.NumCPU()\<close>, a value of the machine and the first argument
  here, capped at 8.  There is no check on \<open>g\<close>.
\<close>

definition NewSolver :: "nat \<Rightarrow> Graph \<Rightarrow> Solver" where
  "NewSolver numCPU g =
     (let logN = ln (real (V g));
          k = nat \<lfloor>logN powr (1 / 3)\<rfloor>;
          t = nat \<lfloor>logN powr (2 / 3)\<rfloor>
      in \<lparr>G = g, Dist = replicate (V g) 0,
          K = (if k < 2 then 2 else k), T = (if t < 2 then 2 else t),
          numWorkers = (if numCPU > 8 then 8 else numCPU)\<rparr>)"

text \<open>\<^verbatim>\<open>l := int(math.Ceil(math.Log(n) / float64(s.T)))\<close> in \<^verbatim>\<open>Run\<close>.\<close>

definition maxLevel :: "nat \<Rightarrow> nat \<Rightarrow> nat" where
  "maxLevel n t = nat \<lceil>ln (real n) / real t\<rceil>"

subsection \<open>The priority queue of the base case\<close>

text \<open>
  \<^verbatim>\<open>PQItem\<close> (its field \<^verbatim>\<open>u\<close> is called \<open>vertex\<close>; \<^verbatim>\<open>index\<close> is bookkeeping of
  the heap and is left out) and the functions \<^verbatim>\<open>up\<close>, \<^verbatim>\<open>down\<close>, \<^verbatim>\<open>Push\<close> and
  \<^verbatim>\<open>Pop\<close> of Go's \<^verbatim>\<open>container/heap\<close> on a slice ordered by
  \<^verbatim>\<open>Less(i, j) = pq[i].priority < pq[j].priority\<close>.
\<close>

record PQItem =
  vertex :: nat
  priority :: real

definition Less :: "PQItem list \<Rightarrow> nat \<Rightarrow> nat \<Rightarrow> bool" where
  "Less pq i j \<longleftrightarrow> priority (pq ! i) < priority (pq ! j)"

definition Swap :: "PQItem list \<Rightarrow> nat \<Rightarrow> nat \<Rightarrow> PQItem list" where
  "Swap pq i j = pq[i := pq ! j, j := pq ! i]"

function up :: "PQItem list \<Rightarrow> nat \<Rightarrow> PQItem list" where
  "up h j =
     (let i = (j - 1) div 2
      in if i = j \<or> \<not> Less h j i then h else up (Swap h i j) i)"
  by pat_completeness auto
termination
  by (relation "measure (\<lambda>(h, j). j)") auto

declare up.simps [simp del]

function down :: "PQItem list \<Rightarrow> nat \<Rightarrow> nat \<Rightarrow> PQItem list" where
  "down h i n =
     (let j1 = 2 * i + 1
      in if j1 \<ge> n then h
         else
           (let j = (if j1 + 1 < n \<and> Less h (j1 + 1) j1 then j1 + 1 else j1)
            in if \<not> Less h j i then h else down (Swap h i j) j n))"
  by pat_completeness auto
termination
  by (relation "measure (\<lambda>(h, i, n). n - i)") (auto split: if_splits)

declare down.simps [simp del]

definition heapPush :: "PQItem list \<Rightarrow> PQItem \<Rightarrow> PQItem list" where
  "heapPush h x = up (h @ [x]) (length h)"

definition heapPop :: "PQItem list \<Rightarrow> PQItem \<times> PQItem list" where
  "heapPop h =
     (let n = length h - 1;
          h' = down (Swap h 0 n) 0 n
      in (last h', butlast h'))"

subsection \<open>Sets of vertices\<close>

text \<open>
  A Go \<^verbatim>\<open>map[int]bool\<close> used as a set is a list without repetition, in the order in
  which the keys were added.  Go leaves the order of \<^verbatim>\<open>range\<close> over a map open; the
  model ranges in the order of the list.
\<close>

definition setAdd :: "nat list \<Rightarrow> nat \<Rightarrow> nat list" where
  "setAdd U u = (if u \<in> set U then U else U @ [u])"

definition addToSet :: "nat list \<Rightarrow> nat list \<Rightarrow> nat list" where
  "addToSet U Ui = fold (\<lambda>u U'. setAdd U' u) Ui U"

subsection \<open>BaseCase\<close>

fun BaseCase_edges ::
  "real \<Rightarrow> nat \<Rightarrow> Edge list \<Rightarrow> real list \<Rightarrow> PQItem list \<Rightarrow> (real list \<times> PQItem list) outcome" where
  "BaseCase_edges Bnd u [] dists pq = Returns (dists, pq)"
| "BaseCase_edges Bnd u (edge # edges) dists pq =
     (let v = To edge;
          w = Weight edge
      in if \<not> v < length dists then Panics
         else if dists ! u + w \<le> dists ! v \<and> dists ! u + w < Bnd
         then BaseCase_edges Bnd u edges (dists[v := dists ! u + w])
                (heapPush pq \<lparr>vertex = v, priority = dists ! u + w\<rparr>)
         else BaseCase_edges Bnd u edges dists pq)"

text \<open>
  The loop \<^verbatim>\<open>for pq.Len() > 0 && len(U0) < limit\<close> of \<^verbatim>\<open>BaseCase\<close>, on fuel: one
  unit for every item popped.
\<close>

fun BaseCase_loop ::
  "nat \<Rightarrow> Graph \<Rightarrow> nat \<Rightarrow> real \<Rightarrow> real list \<Rightarrow> nat list \<Rightarrow> PQItem list
     \<Rightarrow> (real list \<times> nat list) outcome" where
  "BaseCase_loop fuel g limit Bnd dists U0 pq =
     (if length pq > 0 \<and> length U0 < limit then
        (case fuel of
           0 \<Rightarrow> OutOfFuel
         | Suc fuel' \<Rightarrow>
             (let (item, pq') = heapPop pq;
                  u = vertex item
              in if \<not> u < length dists then Panics
                 else if priority item > dists ! u
                 then BaseCase_loop fuel' g limit Bnd dists U0 pq'
                 else if \<not> u < length (Adj g) then Panics
                 else
                   (case BaseCase_edges Bnd u (Adj g ! u) dists pq' of
                      Returns (dists', pq'') \<Rightarrow>
                        BaseCase_loop fuel' g limit Bnd dists' (setAdd U0 u) pq''
                    | Panics \<Rightarrow> Panics
                    | OutOfFuel \<Rightarrow> OutOfFuel
                    | Races \<Rightarrow> Races)))
      else Returns (dists, U0))"

declare BaseCase_loop.simps [simp del]

definition maxDist :: "real list \<Rightarrow> nat list \<Rightarrow> real" where
  "maxDist dists U0 = fold (\<lambda>u maxD. if dists ! u > maxD then dists ! u else maxD) U0 0"

definition BaseCase ::
  "nat \<Rightarrow> Solver \<Rightarrow> real \<Rightarrow> nat list \<Rightarrow> ((real \<times> nat list) \<times> Solver) outcome" where
  "BaseCase fuel s Bnd S =
     (if \<not> list_all (\<lambda>x. x < length (Dist s)) S then Panics
      else
        (let U0 = fold (\<lambda>x U. setAdd U x) S [];
             pq = fold (\<lambda>x pq. heapPush pq \<lparr>vertex = x, priority = Dist s ! x\<rparr>) S [];
             limit = K s + 1
         in case BaseCase_loop fuel (G s) limit Bnd (Dist s) U0 pq of
              Returns (dists, U0') \<Rightarrow>
                (if length U0' \<le> K s then Returns ((Bnd, U0'), s\<lparr>Dist := dists\<rparr>)
                 else
                   (let maxD = maxDist dists U0';
                        finalU = filter (\<lambda>u. dists ! u < maxD) U0'
                    in Returns ((maxD, finalU), s\<lparr>Dist := dists\<rparr>)))
            | Panics \<Rightarrow> Panics
            | OutOfFuel \<Rightarrow> OutOfFuel
            | Races \<Rightarrow> Races))"

subsection \<open>FindPivots\<close>

text \<open>
  \<^verbatim>\<open>relaxKSteps\<close>: the state of the relaxation is the distance vector, the marks
  \<open>inW\<close>, the vertices \<open>Wi\<close> added in the current round and the list \<open>W_list\<close>.
\<close>

fun relaxKSteps_edges ::
  "real \<Rightarrow> nat \<Rightarrow> Edge list \<Rightarrow> real list \<times> bool list \<times> nat list \<times> nat list
     \<Rightarrow> (real list \<times> bool list \<times> nat list \<times> nat list) outcome" where
  "relaxKSteps_edges Bnd u [] st = Returns st"
| "relaxKSteps_edges Bnd u (edge # edges) (dists, inW, Wi, W_list) =
     (if \<not> (u < length dists \<and> To edge < length dists) then Panics
      else
        (let newDist = dists ! u + Weight edge
         in if newDist < dists ! To edge then
              (let dists' = dists[To edge := newDist]
               in if newDist < Bnd then
                    (if \<not> To edge < length inW then Panics
                     else if \<not> inW ! To edge
                     then relaxKSteps_edges Bnd u edges
                            (dists', inW[To edge := True], Wi @ [To edge], W_list @ [To edge])
                     else relaxKSteps_edges Bnd u edges (dists', inW, Wi, W_list))
                  else relaxKSteps_edges Bnd u edges (dists', inW, Wi, W_list))
            else relaxKSteps_edges Bnd u edges (dists, inW, Wi, W_list)))"

fun relaxKSteps_round ::
  "Graph \<Rightarrow> real \<Rightarrow> nat list \<Rightarrow> real list \<times> bool list \<times> nat list \<times> nat list
     \<Rightarrow> (real list \<times> bool list \<times> nat list \<times> nat list) outcome" where
  "relaxKSteps_round g Bnd [] st = Returns st"
| "relaxKSteps_round g Bnd (u # Wi_prev) st =
     (if \<not> u < length (Adj g) then Panics
      else
        (case relaxKSteps_edges Bnd u (Adj g ! u) st of
           Returns st' \<Rightarrow> relaxKSteps_round g Bnd Wi_prev st'
         | Panics \<Rightarrow> Panics
         | OutOfFuel \<Rightarrow> OutOfFuel
         | Races \<Rightarrow> Races))"

text \<open>
  The loop \<^verbatim>\<open>for i := 1; i <= s.K; i++\<close>; the first argument counts the rounds that
  are left, \<open>lenS\<close> is \<^verbatim>\<open>len(S)\<close>.
\<close>

fun relaxKSteps_loop ::
  "nat \<Rightarrow> Graph \<Rightarrow> nat \<Rightarrow> nat \<Rightarrow> real \<Rightarrow> nat list \<Rightarrow> real list \<times> bool list \<times> nat list
     \<Rightarrow> (real list \<times> bool list \<times> nat list) outcome" where
  "relaxKSteps_loop 0 g k lenS Bnd Wi_prev st = Returns st"
| "relaxKSteps_loop (Suc rounds) g k lenS Bnd Wi_prev (dists, inW, W_list) =
     (case relaxKSteps_round g Bnd Wi_prev (dists, inW, [], W_list) of
        Returns (dists', inW', Wi, W_list') \<Rightarrow>
          (if length W_list' > k * lenS then Returns (dists', inW', W_list')
           else relaxKSteps_loop rounds g k lenS Bnd Wi (dists', inW', W_list'))
      | Panics \<Rightarrow> Panics
      | OutOfFuel \<Rightarrow> OutOfFuel
      | Races \<Rightarrow> Races)"

definition relaxKSteps ::
  "Solver \<Rightarrow> real \<Rightarrow> nat list \<Rightarrow> bool list \<Rightarrow> nat list
     \<Rightarrow> (real list \<times> bool list \<times> nat list) outcome" where
  "relaxKSteps s Bnd S inW W_list =
     relaxKSteps_loop (K s) (G s) (K s) (length S) Bnd S (Dist s, inW, W_list)"

text \<open>
  The closure \<^verbatim>\<open>calcSize\<close> of \<^verbatim>\<open>makeTreeSizeCalculator\<close> and
  \<^verbatim>\<open>countTreeChildren\<close>, which call each other.  The slot \<open>memoSize[u]\<close> is 0 for a
  vertex not yet visited, \<open>-1\<close> for one on the stack and the size once computed.  The
  recursion is run on fuel, one unit for every vertex put on the stack;
  \<open>computePivots\<close> gives it one unit per slot of \<open>memoSize\<close>, which suffices (lemma
  \<open>calcSize_refines\<close> below).
\<close>

fun calcSize ::
  "nat \<Rightarrow> Solver \<Rightarrow> bool list \<Rightarrow> int list \<Rightarrow> nat \<Rightarrow> (int \<times> int list) outcome"
and countTreeChildren ::
  "nat \<Rightarrow> Solver \<Rightarrow> bool list \<Rightarrow> int list \<Rightarrow> nat \<Rightarrow> Edge list \<Rightarrow> (int \<times> int list) outcome"
where
  "calcSize fuel s inW memoSize u =
     (if \<not> u < length memoSize then Panics
      else if memoSize ! u > 0 then Returns (memoSize ! u, memoSize)
      else if memoSize ! u = - 1 then Returns (1, memoSize)
      else
        (case fuel of
           0 \<Rightarrow> OutOfFuel
         | Suc fuel' \<Rightarrow>
             (if \<not> u < length (Adj (G s)) then Panics
              else
                (case countTreeChildren fuel' s inW (memoSize[u := - 1]) u (Adj (G s) ! u) of
                   Returns (cnt, memoSize') \<Rightarrow> Returns (1 + cnt, memoSize'[u := 1 + cnt])
                 | Panics \<Rightarrow> Panics
                 | OutOfFuel \<Rightarrow> OutOfFuel
                 | Races \<Rightarrow> Races))))"
| "countTreeChildren fuel s inW memoSize u [] = Returns (0, memoSize)"
| "countTreeChildren fuel s inW memoSize u (edge # edges) =
     (let v = To edge
      in if \<not> v < length inW then Panics
         else if \<not> inW ! v then countTreeChildren fuel s inW memoSize u edges
         else if \<not> (v < length (Dist s) \<and> u < length (Dist s)) then Panics
         else if \<bar>Dist s ! v - (Dist s ! u + Weight edge)\<bar> < 1 / 10 ^ 9 then
           (case calcSize fuel s inW memoSize v of
              Returns (c, memoSize') \<Rightarrow>
                (case countTreeChildren fuel s inW memoSize' u edges of
                   Returns (cnt, memoSize'') \<Rightarrow> Returns (c + cnt, memoSize'')
                 | Panics \<Rightarrow> Panics
                 | OutOfFuel \<Rightarrow> OutOfFuel
                 | Races \<Rightarrow> Races)
            | Panics \<Rightarrow> Panics
            | OutOfFuel \<Rightarrow> OutOfFuel
            | Races \<Rightarrow> Races)
         else countTreeChildren fuel s inW memoSize u edges)"

declare calcSize.simps [simp del]

fun computePivots_loop ::
  "Solver \<Rightarrow> bool list \<Rightarrow> nat list \<Rightarrow> int list \<Rightarrow> nat list \<Rightarrow> nat list outcome" where
  "computePivots_loop s inW [] memoSize P = Returns P"
| "computePivots_loop s inW (u # S) memoSize P =
     (case calcSize (length memoSize) s inW memoSize u of
        Returns (c, memoSize') \<Rightarrow>
          computePivots_loop s inW S memoSize' (if c \<ge> int (K s) then P @ [u] else P)
      | Panics \<Rightarrow> Panics
      | OutOfFuel \<Rightarrow> OutOfFuel
      | Races \<Rightarrow> Races)"

definition computePivots :: "Solver \<Rightarrow> nat list \<Rightarrow> bool list \<Rightarrow> nat list outcome" where
  "computePivots s S inW = computePivots_loop s inW S (replicate (V (G s)) 0) []"

definition FindPivots ::
  "Solver \<Rightarrow> real \<Rightarrow> nat list \<Rightarrow> ((nat list \<times> nat list) \<times> Solver) outcome" where
  "FindPivots s Bnd S =
     (if \<not> list_all (\<lambda>x. x < V (G s)) S then Panics
      else
        (let inW = fold (\<lambda>x inW. inW[x := True]) S (replicate (V (G s)) False)
         in case relaxKSteps s Bnd S inW S of
              Returns (dists, inW', W_list) \<Rightarrow>
                (let s' = s\<lparr>Dist := dists\<rparr>
                 in if length W_list > K s * length S then Returns ((S, W_list), s')
                    else
                      (case computePivots s' S inW' of
                         Returns P \<Rightarrow> Returns ((P, W_list), s')
                       | Panics \<Rightarrow> Panics
                       | OutOfFuel \<Rightarrow> OutOfFuel
                       | Races \<Rightarrow> Races))
            | Panics \<Rightarrow> Panics
            | OutOfFuel \<Rightarrow> OutOfFuel
            | Races \<Rightarrow> Races))"

subsection \<open>BMSSP\<close>

text \<open>
  \<^verbatim>\<open>initializeDataStructure\<close>: \<open>M = 2^((l - 1) * T)\<close>, at least 1.  The powers of two
  are taken in the natural numbers (Go computes them with \<^verbatim>\<open>math.Pow\<close> and converts
  to \<^verbatim>\<open>int\<close>, which is the same below \<open>2^63\<close>).
\<close>

fun insertAll :: "real list \<Rightarrow> nat list \<Rightarrow> DataStructure \<Rightarrow> DataStructure outcome" where
  "insertAll dists [] D = Returns D"
| "insertAll dists (x # P) D =
     (if \<not> x < length dists then Panics
      else
        (case Insert D x (dists ! x) of
           Returns D' \<Rightarrow> insertAll dists P D'
         | Panics \<Rightarrow> Panics
         | OutOfFuel \<Rightarrow> OutOfFuel
         | Races \<Rightarrow> Races))"

definition initializeDataStructure :: "Solver \<Rightarrow> nat \<Rightarrow> nat list \<Rightarrow> DataStructure outcome" where
  "initializeDataStructure s l P =
     (let M0 = (2::int) ^ ((l - 1) * T s);
          M1 = (if M0 < 1 then 1 else M0)
      in insertAll (Dist s) P (NewDataStructure M1))"

definition pullAndExtract ::
  "DataStructure \<Rightarrow> ((nat list \<times> real) \<times> DataStructure) outcome" where
  "pullAndExtract D =
     (case Pull D of
        Returns ((its, Bi), D') \<Rightarrow> Returns ((map Key its, Bi), D')
      | Panics \<Rightarrow> Panics
      | OutOfFuel \<Rightarrow> OutOfFuel
      | Races \<Rightarrow> Races)"

text \<open>
  \<^verbatim>\<open>relaxEdgesSequential\<close>: the state is the distance vector, the block sequence and the
  pending batch \<open>Kb\<close> (the \<^verbatim>\<open>K\<close> of the source, which is not the parameter \<open>k\<close>).
\<close>

fun relaxEdges_edges ::
  "real \<Rightarrow> real \<Rightarrow> real \<Rightarrow> nat \<Rightarrow> Edge list \<Rightarrow> real list \<times> DataStructure \<times> Item list
     \<Rightarrow> (real list \<times> DataStructure \<times> Item list) outcome" where
  "relaxEdges_edges Bi Bi' Bnd u [] st = Returns st"
| "relaxEdges_edges Bi Bi' Bnd u (edge # edges) (dists, D, Kb) =
     (if \<not> (u < length dists \<and> To edge < length dists) then Panics
      else
        (let newDist = dists ! u + Weight edge
         in if newDist \<le> dists ! To edge then
              (let dists' = dists[To edge := newDist]
               in if newDist \<ge> Bi \<and> newDist < Bnd then
                    (case Insert D (To edge) newDist of
                       Returns D' \<Rightarrow> relaxEdges_edges Bi Bi' Bnd u edges (dists', D', Kb)
                     | Panics \<Rightarrow> Panics
                     | OutOfFuel \<Rightarrow> OutOfFuel
                     | Races \<Rightarrow> Races)
                  else if newDist \<ge> Bi' \<and> newDist < Bi then
                    relaxEdges_edges Bi Bi' Bnd u edges
                      (dists', D, Kb @ [\<lparr>Key = To edge, Value = newDist\<rparr>])
                  else relaxEdges_edges Bi Bi' Bnd u edges (dists', D, Kb))
            else relaxEdges_edges Bi Bi' Bnd u edges (dists, D, Kb)))"

fun relaxEdgesSequential ::
  "Graph \<Rightarrow> real \<Rightarrow> real \<Rightarrow> real \<Rightarrow> nat list \<Rightarrow> real list \<times> DataStructure \<times> Item list
     \<Rightarrow> (real list \<times> DataStructure \<times> Item list) outcome" where
  "relaxEdgesSequential g Bi Bi' Bnd [] st = Returns st"
| "relaxEdgesSequential g Bi Bi' Bnd (u # Ui) st =
     (if \<not> u < length (Adj g) then Panics
      else
        (case relaxEdges_edges Bi Bi' Bnd u (Adj g ! u) st of
           Returns st' \<Rightarrow> relaxEdgesSequential g Bi Bi' Bnd Ui st'
         | Panics \<Rightarrow> Panics
         | OutOfFuel \<Rightarrow> OutOfFuel
         | Races \<Rightarrow> Races))"






text \<open>
  \<^verbatim>\<open>relaxEdges\<close>: nothing to do for an empty \<open>Ui\<close>; the sequential loop for at most
  four vertices or a single worker; the goroutines otherwise.  The solver's recursion
  does not follow a schedule, so in the last case the call is \<open>Races\<close>.
\<close>

definition relaxEdges ::
  "Solver \<Rightarrow> nat list \<Rightarrow> real \<Rightarrow> real \<Rightarrow> real \<Rightarrow> DataStructure
     \<Rightarrow> ((Item list \<times> DataStructure) \<times> Solver) outcome" where
  "relaxEdges s Ui Bi Bi' Bnd D =
     (if length Ui = 0 then Returns (([], D), s)
      else if length Ui \<le> 4 \<or> numWorkers s = 1 then
        (case relaxEdgesSequential (G s) Bi Bi' Bnd Ui (Dist s, D, []) of
           Returns (dists, D', Kb) \<Rightarrow> Returns ((Kb, D'), s\<lparr>Dist := dists\<rparr>)
         | Panics \<Rightarrow> Panics
         | OutOfFuel \<Rightarrow> OutOfFuel
         | Races \<Rightarrow> Races)
      else Races)"

definition batchPrepend ::
  "Solver \<Rightarrow> DataStructure \<Rightarrow> Item list \<Rightarrow> nat list \<Rightarrow> real \<Rightarrow> real \<Rightarrow> DataStructure outcome" where
  "batchPrepend s D Kb Si Bi' Bi =
     (if \<not> list_all (\<lambda>x. x < length (Dist s)) Si then Panics
      else
        BatchPrepend D
          (Kb @ map (\<lambda>x. \<lparr>Key = x, Value = Dist s ! x\<rparr>)
                  (filter (\<lambda>x. Dist s ! x \<ge> Bi' \<and> Dist s ! x < Bi) Si)))"

definition buildFinalSet :: "Solver \<Rightarrow> nat list \<Rightarrow> nat list \<Rightarrow> real \<Rightarrow> nat list outcome" where
  "buildFinalSet s U W bound =
     (if \<not> list_all (\<lambda>w. w < length (Dist s)) W then Panics
      else Returns (fold (\<lambda>w U'. if Dist s ! w < bound \<and> w \<notin> set U' then setAdd U' w else U') W U))"

definition finalizeBMSSP ::
  "Solver \<Rightarrow> real \<Rightarrow> nat list \<Rightarrow> nat list \<Rightarrow> ((real \<times> nat list) \<times> Solver) outcome" where
  "finalizeBMSSP s Bnd W U =
     (if \<not> list_all (\<lambda>w. w < length (Dist s)) W then Panics
      else Returns ((Bnd, U @ filter (\<lambda>w. Dist s ! w < Bnd \<and> w \<notin> set U) W), s))"

text \<open>
  \<^verbatim>\<open>BMSSP\<close> and \<^verbatim>\<open>processMainLoop\<close> call each other.  Both run on fuel: one unit for
  every entry into the main loop and for every turn of it.  \<^verbatim>\<open>processMainLoop\<close> also
  returns \<open>limit\<close>, which its only caller drops.
\<close>

fun BMSSP ::
  "nat \<Rightarrow> Solver \<Rightarrow> nat \<Rightarrow> real \<Rightarrow> nat list \<Rightarrow> ((real \<times> nat list) \<times> Solver) outcome"
and processMainLoop ::
  "nat \<Rightarrow> Solver \<Rightarrow> nat \<Rightarrow> real \<Rightarrow> DataStructure \<Rightarrow> nat list \<Rightarrow> nat list
     \<Rightarrow> (nat list \<times> Solver) outcome"
where
  "BMSSP fuel s l Bnd S =
     (if l = 0 then BaseCase fuel s Bnd S
      else
        (case FindPivots s Bnd S of
           Returns ((P, W), s1) \<Rightarrow>
             (if length P = 0 then finalizeBMSSP s1 Bnd W []
              else
                (case initializeDataStructure s1 l P of
                   Returns D \<Rightarrow>
                     (case fuel of
                        0 \<Rightarrow> OutOfFuel
                      | Suc fuel' \<Rightarrow>
                          (case processMainLoop fuel' s1 l Bnd D W [] of
                             Returns (U, s2) \<Rightarrow> finalizeBMSSP s2 Bnd W U
                           | Panics \<Rightarrow> Panics
                           | OutOfFuel \<Rightarrow> OutOfFuel
                           | Races \<Rightarrow> Races))
                 | Panics \<Rightarrow> Panics
                 | OutOfFuel \<Rightarrow> OutOfFuel
                 | Races \<Rightarrow> Races))
         | Panics \<Rightarrow> Panics
         | OutOfFuel \<Rightarrow> OutOfFuel
         | Races \<Rightarrow> Races))"
| "processMainLoop fuel s l Bnd D W U =
     (let limit = K s * 2 ^ (l * T s)
      in if length U < limit \<and> Count D > 0 then
           (case fuel of
              0 \<Rightarrow> OutOfFuel
            | Suc fuel' \<Rightarrow>
                (case pullAndExtract D of
                   Returns ((Si, Bi), D1) \<Rightarrow>
                     (case BMSSP fuel' s (l - 1) Bi Si of
                        Returns ((Bi', Ui), s1) \<Rightarrow>
                          (let U1 = addToSet U Ui
                           in case relaxEdges s1 Ui Bi Bi' Bnd D1 of
                                Returns ((Kb, D2), s2) \<Rightarrow>
                                  (case batchPrepend s2 D2 Kb Si Bi' Bi of
                                     Returns D3 \<Rightarrow>
                                       (if length U1 > limit then
                                          (case buildFinalSet s2 U1 W Bi' of
                                             Returns U2 \<Rightarrow> Returns (U2, s2)
                                           | Panics \<Rightarrow> Panics
                                           | OutOfFuel \<Rightarrow> OutOfFuel
                                           | Races \<Rightarrow> Races)
                                        else processMainLoop fuel' s2 l Bnd D3 W U1)
                                   | Panics \<Rightarrow> Panics
                                   | OutOfFuel \<Rightarrow> OutOfFuel
                                   | Races \<Rightarrow> Races)
                              | Panics \<Rightarrow> Panics
                              | OutOfFuel \<Rightarrow> OutOfFuel
                              | Races \<Rightarrow> Races)
                      | Panics \<Rightarrow> Panics
                      | OutOfFuel \<Rightarrow> OutOfFuel
                      | Races \<Rightarrow> Races)
                 | Panics \<Rightarrow> Panics
                 | OutOfFuel \<Rightarrow> OutOfFuel
                 | Races \<Rightarrow> Races))
         else Returns (U, s))"

declare BMSSP.simps [simp del]
declare processMainLoop.simps [simp del]

text \<open>
  \<^verbatim>\<open>Run\<close>: every distance is reset to \<open>Infinity\<close> before \<^verbatim>\<open>s.Dist[source] = 0\<close>,
  which panics when \<open>source\<close> is not an index of \<open>Dist\<close>.
\<close>

definition Run :: "nat \<Rightarrow> Solver \<Rightarrow> nat \<Rightarrow> (real list \<times> Solver) outcome" where
  "Run fuel s source =
     (let dists = replicate (length (Dist s)) Infinity
      in if \<not> source < length dists then Panics
         else
           (let s1 = s\<lparr>Dist := dists[source := 0]\<rparr>;
                l = maxLevel (V (G s)) (T s)
            in case BMSSP fuel s1 l Infinity [source] of
                 Returns (r, s2) \<Rightarrow> Returns (Dist s2, s2)
               | Panics \<Rightarrow> Panics
               | OutOfFuel \<Rightarrow> OutOfFuel
               | Races \<Rightarrow> Races))"

subsection \<open>The reference: naiveDijkstra of the test file\<close>

fun findMin :: "real list \<Rightarrow> bool list \<Rightarrow> nat list \<Rightarrow> real \<Rightarrow> nat option \<Rightarrow> nat option" where
  "findMin dists visited [] minDist u = u"
| "findMin dists visited (v # vs) minDist u =
     (if \<not> visited ! v \<and> dists ! v < minDist
      then findMin dists visited vs (dists ! v) (Some v)
      else findMin dists visited vs minDist u)"

fun naiveRelax :: "nat \<Rightarrow> Edge list \<Rightarrow> real list \<Rightarrow> real list outcome" where
  "naiveRelax u [] dists = Returns dists"
| "naiveRelax u (edge # edges) dists =
     (if \<not> To edge < length dists then Panics
      else if dists ! u + Weight edge < dists ! To edge
      then naiveRelax u edges (dists[To edge := dists ! u + Weight edge])
      else naiveRelax u edges dists)"

fun naiveDijkstra_loop :: "nat \<Rightarrow> Graph \<Rightarrow> real list \<Rightarrow> bool list \<Rightarrow> real list outcome" where
  "naiveDijkstra_loop 0 g dists visited = Returns dists"
| "naiveDijkstra_loop (Suc cnt) g dists visited =
     (case findMin dists visited [0..<V g] Infinity None of
        None \<Rightarrow> Returns dists
      | Some u \<Rightarrow>
          (if \<not> u < length (Adj g) then Panics
           else
             (case naiveRelax u (Adj g ! u) dists of
                Returns dists' \<Rightarrow> naiveDijkstra_loop cnt g dists' (visited[u := True])
              | Panics \<Rightarrow> Panics
              | OutOfFuel \<Rightarrow> OutOfFuel
              | Races \<Rightarrow> Races)))"

definition naiveDijkstra :: "Graph \<Rightarrow> nat \<Rightarrow> real list outcome" where
  "naiveDijkstra g source =
     (if \<not> source < V g then Panics
      else naiveDijkstra_loop (V g) g ((replicate (V g) Infinity)[source := 0])
             (replicate (V g) False))"

section \<open>The pivots in the words of the specification\<close>

text \<open>
  The specification's account of the last step of \<^verbatim>\<open>FindPivots\<close>, to be compared
  with \<open>computePivots\<close>.  The forest \<open>F\<close> on \<open>W\<close>: an edge \<open>u \<rightarrow> v\<close> of weight \<open>w\<close> is
  in \<open>F\<close> iff \<open>u\<close> and \<open>v\<close> are in \<open>W\<close> and \<open>|dist[v] - (dist[u] + w)| < 10\<^sup>-\<^sup>9\<close>.  The subtree
  size: a slot per vertex, unvisited, on the stack or computed; on entry for \<open>u\<close>, a
  computed slot gives its value and a slot on the stack gives 1; otherwise the slot is put
  on the stack, the sizes of the children are summed, and 1 plus that sum is stored and
  returned.  The sizes of the sources are computed one after the other on the same slots.
  The recursion is run on fuel, as many units as there are slots; \<open>None\<close> would say that
  the fuel did not suffice.
\<close>

datatype slot = Unvisited | OnStack | Computed nat





text \<open>
  The slots as \<^verbatim>\<open>memoSize\<close> holds them, and the number of unvisited slots.
\<close>

fun enc :: "slot \<Rightarrow> int" where
  "enc Unvisited = 0"
| "enc OnStack = - 1"
| "enc (Computed c) = int c"


section \<open>Notions used to reason about the transform\<close>

text \<open>
  The edges of the rows \<open>0 \<dots> V - 1\<close> in the order in which the loops of
  \<^verbatim>\<open>ToConstantDegree\<close> visit them, each with its tail; the endpoints of a list of
  edges; the appends that the cycle loop and the real-edge loop perform, as lists of
  (row, edge) pairs, and their effect on an adjacency list; the size of the cycle of a
  vertex and the layout that the second loop computes; the number of times a vertex
  occurs as an endpoint.
\<close>

definition edgesOf :: "Graph \<Rightarrow> (nat \<times> Edge) list" where
  "edgesOf g = concat (map (\<lambda>u. map (Pair u) (Adj g ! u)) [0..<V g])"

definition endpoints :: "(nat \<times> Edge) list \<Rightarrow> nat list" where
  "endpoints ops = concat (map (\<lambda>(x, e). [x, To e]) ops)"

definition applyOps :: "(nat \<times> Edge) list \<Rightarrow> Edge list list \<Rightarrow> Edge list list" where
  "applyOps = fold (\<lambda>(x, e) adj. appendEdge adj x e)"

fun realOps :: "nat list \<Rightarrow> (nat \<times> Edge) list \<Rightarrow> nat list \<Rightarrow> (nat \<times> Edge) list" where
  "realOps starts [] slots = []"
| "realOps starts ((u, e) # E) slots =
     (starts ! u + slots ! u, \<lparr>To = starts ! To e + (slots[u := slots ! u + 1]) ! To e, Weight = Weight e\<rparr>)
     # realOps starts E ((slots[u := slots ! u + 1])[To e := (slots[u := slots ! u + 1]) ! To e + 1])"

definition cyclePairs :: "nat list \<Rightarrow> nat \<Rightarrow> (nat \<times> nat) list" where
  "cyclePairs sizes n = concat (map (\<lambda>u. map (Pair u) [0..<sizes ! u]) [0..<n])"

definition cycleOps :: "nat list \<Rightarrow> nat list \<Rightarrow> nat \<Rightarrow> (nat \<times> Edge) list" where
  "cycleOps starts sizes n =
     map (\<lambda>(u, i). (starts ! u + i, \<lparr>To = starts ! u + (i + 1) mod sizes ! u, Weight = 0\<rparr>))
       (cyclePairs sizes n)"

definition cycleSize :: "Graph \<Rightarrow> nat list \<Rightarrow> nat \<Rightarrow> nat" where
  "cycleSize g inDegree u =
     (let sz0 = length (Adj g ! u) + inDegree ! u in if sz0 = 0 then 1 else sz0)"

definition startsOf :: "Graph \<Rightarrow> nat list" where
  "startsOf g = map (\<lambda>u. sum (cycleSize g (countInDegree g)) {..<u}) [0..<V g]"

definition sizesOf :: "Graph \<Rightarrow> nat list" where
  "sizesOf g = map (cycleSize g (countInDegree g)) [0..<V g]"

definition nodesOf :: "Graph \<Rightarrow> nat" where
  "nodesOf g = sum (cycleSize g (countInDegree g)) {..<V g}"

definition occ :: "(nat \<times> Edge) list \<Rightarrow> nat \<Rightarrow> nat" where
  "occ E u = length (filter (\<lambda>z. z = u) (endpoints E))"

section \<open>Graphs used as concrete inputs\<close>

text \<open>Two vertices and the edge \<open>0 \<rightarrow> 1\<close> of weight 1.\<close>

definition twoPath :: Graph where
  "twoPath = \<lparr>V = 2, Adj = [[\<lparr>To = 1, Weight = 1\<rparr>], []]\<rparr>"

text \<open>The path \<open>0 \<rightarrow> 1 \<rightarrow> 2 \<rightarrow> 3\<close> with edges of weight 1.\<close>

definition fourPath :: Graph where
  "fourPath = \<lparr>V = 4, Adj = [[\<lparr>To = 1, Weight = 1\<rparr>], [\<lparr>To = 2, Weight = 1\<rparr>],
     [\<lparr>To = 3, Weight = 1\<rparr>], []]\<rparr>"

text \<open>
  The path \<open>0 \<rightarrow> 1 \<rightarrow> \<dots> \<rightarrow> 9\<close>; the edge \<open>1 \<rightarrow> 2\<close> has weight 0, every other
  edge weight 1.
\<close>

definition tenPath :: Graph where
  "tenPath = \<lparr>V = 10, Adj = [[\<lparr>To = 1, Weight = 1\<rparr>], [\<lparr>To = 2, Weight = 0\<rparr>],
     [\<lparr>To = 3, Weight = 1\<rparr>], [\<lparr>To = 4, Weight = 1\<rparr>], [\<lparr>To = 5, Weight = 1\<rparr>],
     [\<lparr>To = 6, Weight = 1\<rparr>], [\<lparr>To = 7, Weight = 1\<rparr>], [\<lparr>To = 8, Weight = 1\<rparr>],
     [\<lparr>To = 9, Weight = 1\<rparr>], []]\<rparr>"

text \<open>Three vertices, four edges, one of them a self-loop.\<close>

definition threeGraph :: Graph where
  "threeGraph = \<lparr>V = 3, Adj = [[\<lparr>To = 1, Weight = 5\<rparr>, \<lparr>To = 2, Weight = 7\<rparr>],
     [\<lparr>To = 2, Weight = 1\<rparr>], [\<lparr>To = 2, Weight = 3\<rparr>]]\<rparr>"


text \<open>
  Five vertices joined by edges of weight 0, and an edge of weight 1 to a sixth.
\<close>

definition zeroChain :: Graph where
  "zeroChain = \<lparr>V = 6, Adj = [[\<lparr>To = 1, Weight = 0\<rparr>], [\<lparr>To = 2, Weight = 0\<rparr>],
     [\<lparr>To = 3, Weight = 0\<rparr>], [\<lparr>To = 4, Weight = 0\<rparr>], [\<lparr>To = 5, Weight = 1\<rparr>], []]\<rparr>"

section \<open>Properties of the block sequence\<close>

lemma Search_loop_bounds: "i \<le> j \<Longrightarrow> i \<le> Search_loop f i j \<and> Search_loop f i j \<le> j"
proof (induction f i j rule: Search_loop.induct)
  case (1 f i j)
  show ?case
  proof (cases "i < j")
    case False
    then show ?thesis
      using "1.prems" by (subst (1 2) Search_loop.simps) simp
  next
    case True
    define h where "h = (i + j) div 2"
    from True have h: "i \<le> h" "h < j" by (auto simp: h_def)
    show ?thesis
    proof (cases "f h")
      case True
      with "1.IH"(2) [of h] \<open>i < j\<close> h show ?thesis
        by (subst (1 2) Search_loop.simps) (simp add: Let_def h_def)
    next
      case False
      with "1.IH"(1) [of h] \<open>i < j\<close> h show ?thesis
        by (subst (1 2) Search_loop.simps) (simp add: Let_def h_def)
    qed
  qed
qed

lemma Search_le: "Search n f \<le> n"
  using Search_loop_bounds [of 0 n f] by (simp add: Search_def)

lemma split_Returns:
  assumes "2 \<le> length (items (d1 ds ! i))"
  shows "\<exists>ds'. split ds i = Returns ds' \<and> Count ds' = Count ds \<and> M ds' = M ds"
proof -
  have "length (sortItems (items (d1 ds ! i))) div 2 \<noteq> 0"
    using assms by (simp add: sortItems_def)
  then show ?thesis
    by (simp add: split_def Let_def)
qed

lemma Insert_Returns:
  assumes "0 < M ds"
  shows "\<exists>ds'. Insert ds key val = Returns ds' \<and> Count ds' = Count ds + 1 \<and> M ds' = M ds"
proof -
  define idx0 where "idx0 = Search (length (d1 ds)) (\<lambda>i. upperBound (d1 ds ! i) \<ge> val)"
  define blocks where "blocks = (if idx0 = length (d1 ds) \<and> length (d1 ds) = 0
                    then [newBlock\<lparr>upperBound := Infinity\<rparr>] else d1 ds)"
  define idx where "idx = (if idx0 = length (d1 ds)
                 then (if length (d1 ds) = 0 then 0 else length (d1 ds) - 1)
                 else idx0)"
  define tb where "tb = (blocks ! idx)\<lparr>items := \<lparr>Key = key, Value = val\<rparr> # items (blocks ! idx)\<rparr>"
  define ds' where "ds' = ds\<lparr>Count := Count ds + 1, d1 := blocks[idx := tb]\<rparr>"
  have "idx0 \<le> length (d1 ds)"
    unfolding idx0_def by (rule Search_le)
  then have idx: "idx < length blocks"
    by (auto simp: idx_def blocks_def)
  have ins: "Insert ds key val =
      (if int (length (items tb)) > M ds then split ds' idx else Returns ds')"
    by (simp add: Insert_def Let_def idx0_def blocks_def idx_def tb_def ds'_def)
  show ?thesis
  proof (cases "int (length (items tb)) > M ds")
    case False
    then show ?thesis by (simp add: ins ds'_def)
  next
    case True
    with assms have "2 \<le> length (items tb)" by linarith
    with idx have "2 \<le> length (items (d1 ds' ! idx))" by (simp add: ds'_def)
    from split_Returns [OF this] True show ?thesis
      by (auto simp: ins ds'_def)
  qed
qed

lemma BatchPrepend_Returns:
  assumes "0 < M ds"
  shows "\<exists>ds'. BatchPrepend ds its = Returns ds' \<and>
           Count ds' = Count ds + int (length its) \<and> M ds' = M ds"
  using assms by (simp add: BatchPrepend_def)

text \<open>
  Claim C10, as stated, fails: \<^verbatim>\<open>NewDataStructure\<close> takes any capacity, and with
  \<open>M = 0\<close> both operations abort.  The first \<open>Insert\<close> overflows its block at once
  and \<^verbatim>\<open>split\<close> reads \<^verbatim>\<open>items[mid-1]\<close> with \<open>mid = 0\<close>; \<open>BatchPrepend\<close> cuts an
  empty first chunk and reads \<^verbatim>\<open>chunk[len(chunk)-1]\<close>.
\<close>

theorem block_sequence_panics_at_capacity_0:
  "Insert (NewDataStructure 0) 7 1 = Panics \<and>
   BatchPrepend (NewDataStructure 0) [\<lparr>Key = 1, Value = 5\<rparr>] = Panics"
  by (simp add: Insert_def NewDataStructure_def Search_def Search_loop.simps newBlock_def
      split_def sortItems_def BatchPrepend_def Let_def)

text \<open>
  Claim C10, amended.  With a block capacity \<open>M \<ge> 1\<close> (the solver never builds
  another), the block sequence checks none of its stated preconditions and reports no
  error: in every state, \<open>Insert\<close> returns for every key and every value (values at
  or above the bound \<open>B\<close> included) and raises \<open>Count\<close> by exactly one, and
  \<open>BatchPrepend\<close> returns for every list of items (whatever their values are compared
  with the values present) and raises \<open>Count\<close> by exactly the number of items given.
\<close>

theorem block_sequence_never_refuses:
  assumes "0 < M ds"
  shows "(\<exists>ds'. Insert ds key val = Returns ds' \<and> Count ds' = Count ds + 1) \<and>
         (\<exists>ds'. BatchPrepend ds its = Returns ds' \<and>
                Count ds' = Count ds + int (length its))"
  using Insert_Returns [OF assms, of key val] BatchPrepend_Returns [OF assms, of its]
  by blast

text \<open>
  At a structure that holds one item of value 1: the value inserted is the bound \<open>B\<close>
  itself, and the batch items, of values 5 and 3, are not smaller than the value present.
\<close>

theorem block_sequence_never_refuses_witness:
  "Insert (NewDataStructure 1) 9 1 =
     Returns \<lparr>M = 1, B = Infinity, Count = 1, d0 = [],
        d1 = [\<lparr>items = [\<lparr>Key = 9, Value = 1\<rparr>], upperBound = Infinity\<rparr>]\<rparr> \<and>
   (\<exists>ds'. Insert \<lparr>M = 1, B = Infinity, Count = 1, d0 = [],
              d1 = [\<lparr>items = [\<lparr>Key = 9, Value = 1\<rparr>], upperBound = Infinity\<rparr>]\<rparr>
            7 Infinity = Returns ds' \<and> Count ds' = 1 + 1) \<and>
   (\<exists>ds'. BatchPrepend \<lparr>M = 1, B = Infinity, Count = 1, d0 = [],
              d1 = [\<lparr>items = [\<lparr>Key = 9, Value = 1\<rparr>], upperBound = Infinity\<rparr>]\<rparr>
            [\<lparr>Key = 1, Value = 5\<rparr>, \<lparr>Key = 2, Value = 3\<rparr>] = Returns ds' \<and>
          Count ds' = 1 + int (length [\<lparr>Key = 1, Value = 5\<rparr>, \<lparr>Key = 2, Value = 3\<rparr>]))"
proof -
  define ds1 where "ds1 = \<lparr>M = 1, B = Infinity, Count = 1, d0 = [],
        d1 = [\<lparr>items = [\<lparr>Key = 9, Value = 1\<rparr>], upperBound = Infinity\<rparr>]\<rparr>"
  have e: "Insert (NewDataStructure 1) 9 1 = Returns ds1"
    by (simp add: ds1_def Insert_def NewDataStructure_def Search_def Search_loop.simps
        newBlock_def Let_def)
  have m: "0 < M ds1" by (simp add: ds1_def)
  have c: "Count ds1 = 1" by (simp add: ds1_def)
  from block_sequence_never_refuses [OF m, of 7 Infinity
      "[\<lparr>Key = 1, Value = 5\<rparr>, \<lparr>Key = 2, Value = 3\<rparr>]"] e
  show ?thesis unfolding c unfolding ds1_def by simp
qed

text \<open>
  Claim C4 at a concrete input.  \<open>BatchPrepend\<close> with \<open>M = 2\<close> on the empty
  structure and the items of values 1, 2, 3: the sorted items are cut into the chunks
  (1, 2) and (3), and each chunk is put in front of \<open>d0\<close> as soon as it is built, so the
  block of the largest chunk ends up first: \<open>d0\<close> reads 3, then 2, 1 from front to back,
  which is not in non-decreasing order.
\<close>

theorem BatchPrepend_blocks_reversed:
  "BatchPrepend (NewDataStructure 2)
     [\<lparr>Key = 1, Value = 1\<rparr>, \<lparr>Key = 2, Value = 2\<rparr>, \<lparr>Key = 3, Value = 3\<rparr>]
   = Returns ((NewDataStructure 2)
       \<lparr>Count := 3,
        d0 := [\<lparr>items = [\<lparr>Key = 3, Value = 3\<rparr>], upperBound = 3\<rparr>,
               \<lparr>items = [\<lparr>Key = 2, Value = 2\<rparr>, \<lparr>Key = 1, Value = 1\<rparr>],
                  upperBound = 2\<rparr>]\<rparr>)"
  by (simp add: BatchPrepend_def NewDataStructure_def sortItems_def BatchPrepend_loop.simps)

text \<open>
  Claim C3 at a concrete input.  After that \<open>BatchPrepend\<close> (whose precondition holds:
  the structure was empty), \<open>Pull\<close> with \<open>M = 2\<close> returns the items of values 3 and 2
  and the boundary 1, and leaves the item of value 1 behind: the items returned are the
  largest, not the smallest, and the boundary is below both of them.
\<close>

theorem Pull_returns_largest:
  "obind (BatchPrepend (NewDataStructure 2)
            [\<lparr>Key = 1, Value = 1\<rparr>, \<lparr>Key = 2, Value = 2\<rparr>, \<lparr>Key = 3, Value = 3\<rparr>]) Pull
   = Returns (([\<lparr>Key = 3, Value = 3\<rparr>, \<lparr>Key = 2, Value = 2\<rparr>], 1),
       (NewDataStructure 2)
         \<lparr>Count := 1,
          d0 := [\<lparr>items = [\<lparr>Key = 1, Value = 1\<rparr>], upperBound = 2\<rparr>]\<rparr>)"
  by (simp add: BatchPrepend_def NewDataStructure_def sortItems_def BatchPrepend_loop.simps
      Pull_def peekBlock_def)

section \<open>Input validation\<close>

lemma Infinity_pos: "0 < Infinity"
  by (simp add: Infinity_def)

lemma Run_source_out_of_range: "length (Dist s) \<le> source \<Longrightarrow> Run fuel s source = Panics"
  by (simp add: Run_def Let_def)

text \<open>
  Claim C8, as stated, fails: an edge of negative weight is not refused.  \<open>AddEdge\<close> on
  a graph of one vertex with the weight \<open>-1\<close> returns the graph with the edge stored.
\<close>

theorem AddEdge_accepts_negative_weight:
  "AddEdge (NewGraph 1) 0 0 (- 1) = Returns \<lparr>V = 1, Adj = [[\<lparr>To = 0, Weight = - 1\<rparr>]]\<rparr>"
  by (simp add: AddEdge_def NewGraph_def appendEdge_def)

text \<open>
  Claim C8, amended.  No input is validated and no invalid-input error exists.
  \<open>AddEdge g u v w\<close> with \<open>u\<close> an index of the adjacency list stores the edge and
  returns, whatever \<open>v\<close> and \<open>w\<close> are (a target out of range and a negative weight
  included); with \<open>u\<close> out of range it aborts with Go's index panic.  \<open>NewSolver\<close>
  returns a solver for every graph, the empty one included.  \<open>Run\<close> with a source that
  is not an index of the distance vector (every source, on the empty graph) aborts with
  the index panic.
\<close>

theorem no_input_validation:
  "(u < length (Adj g) \<longrightarrow>
      (\<exists>g'. AddEdge g u v w = Returns g' \<and> V g' = V g \<and>
            Adj g' = (Adj g)[u := Adj g ! u @ [\<lparr>To = v, Weight = w\<rparr>]])) \<and>
   (length (Adj g) \<le> u \<longrightarrow> AddEdge g u v w = Panics) \<and>
   G (NewSolver numCPU h) = h \<and> length (Dist (NewSolver numCPU h)) = V h \<and>
   (length (Dist s) \<le> source \<longrightarrow> Run fuel s source = Panics)"
  by (simp add: AddEdge_def appendEdge_def NewSolver_def Let_def Run_source_out_of_range)

theorem no_input_validation_witness:
  "(\<exists>g'. AddEdge (NewGraph 2) 0 7 (- 3) = Returns g' \<and> V g' = V (NewGraph 2) \<and>
         Adj g' = (Adj (NewGraph 2))[0 := Adj (NewGraph 2) ! 0 @ [\<lparr>To = 7, Weight = - 3\<rparr>]]) \<and>
   AddEdge (NewGraph 2) 2 0 1 = Panics \<and>
   G (NewSolver 8 (NewGraph 0)) = NewGraph 0 \<and>
   length (Dist (NewSolver 8 (NewGraph 0))) = V (NewGraph 0) \<and>
   Run 5 (NewSolver 8 (NewGraph 0)) 0 = Panics"
proof -
  have a: "0 < length (Adj (NewGraph 2))" by (simp add: NewGraph_def)
  have b: "length (Adj (NewGraph 2)) \<le> 2" by (simp add: NewGraph_def)
  have c: "length (Dist (NewSolver 8 (NewGraph 0))) \<le> 0"
    by (simp add: NewSolver_def NewGraph_def Let_def)
  show ?thesis
    using no_input_validation [where u = 0 and g = "NewGraph 2" and v = 7 and w = "- 3"
        and numCPU = 8 and h = "NewGraph 0" and s = "NewSolver 8 (NewGraph 0)"
        and source = 0 and fuel = 5]
      no_input_validation [where u = 2 and g = "NewGraph 2" and v = 0 and w = 1
        and numCPU = 8 and h = "NewGraph 0" and s = "NewSolver 8 (NewGraph 0)"
        and source = 0 and fuel = 5] a b c
    by blast
qed

section \<open>The base case on a zero-weight self-loop\<close>

text \<open>
  The transform of the graph with one vertex and no edge: one vertex with the
  zero-weight cycle edge to itself.
\<close>

lemma ToConstantDegree_single_vertex:
  "ToConstantDegree (NewGraph 1) =
     Returns \<lparr>TG = \<lparr>V = 1, Adj = [[\<lparr>To = 0, Weight = 0\<rparr>]]\<rparr>,
              OriginalTo = [0], NewToOrigin = [0]\<rparr>"
  by (simp add: ToConstantDegree_def NewGraph_def inRange_def countInDegree_def layout_def
      layoutStep_def buildCycles_def cycleStep_def addRealEdges_def appendEdge_def)

text \<open>
  On that vertex the loop of \<open>BaseCase\<close> pops the source, relaxes the self-loop
  (\<open>0 + 0 \<le> 0\<close> holds) and pushes the source again: the state after a turn is the
  state before it, the settled set keeps its single vertex, and no amount of fuel
  suffices.
\<close>

lemma BaseCase_loop_self_loop:
  assumes "Adj g = [[\<lparr>To = 0, Weight = 0\<rparr>]]"
  shows "BaseCase_loop fuel g 3 Infinity [0] [0] [\<lparr>vertex = 0, priority = 0\<rparr>] = OutOfFuel"
proof (induction fuel)
  case 0
  show ?case by (simp add: BaseCase_loop.simps)
next
  case (Suc fuel)
  have pop: "heapPop [\<lparr>vertex = 0, priority = 0\<rparr>] = (\<lparr>vertex = 0, priority = 0\<rparr>, [])"
    by (simp add: heapPop_def Swap_def down.simps)
  have push: "heapPush [] \<lparr>vertex = 0, priority = 0\<rparr> = [\<lparr>vertex = 0, priority = 0\<rparr>]"
    by (simp add: heapPush_def up.simps)
  show ?case
    by (subst BaseCase_loop.simps) (simp add: pop push Infinity_pos setAdd_def Suc.IH assms)
qed

text \<open>
  Claim C1 at a concrete input: the graph with one vertex and no edge, source 0 (the
  spec's seeded scenario (b), expected distances \<open>[0]\<close>).  The transform, the solver
  built by \<open>NewSolver\<close> (\<open>k = t = 2\<close>, top level 0, any number of processors) and
  \<open>Run\<close> from \<open>OriginalTo[0]\<close>: \<open>Run\<close> never returns, whatever the fuel, while the reference
  \<open>naiveDijkstra\<close> returns \<open>[0]\<close>.
\<close>

theorem Run_single_vertex_never_returns:
  "(\<exists>tg. ToConstantDegree (NewGraph 1) = Returns tg \<and>
      (\<forall>numCPU fuel.
         Run fuel (NewSolver numCPU (TG tg)) (OriginalTo tg ! 0) = OutOfFuel)) \<and>
   naiveDijkstra (NewGraph 1) 0 = Returns [0]"
proof -
  define tg where "tg = \<lparr>TG = \<lparr>V = 1, Adj = [[\<lparr>To = 0, Weight = 0\<rparr>]]\<rparr>,
    OriginalTo = [0], NewToOrigin = [0]\<rparr>"
  have s: "NewSolver numCPU (TG tg) =
      \<lparr>G = \<lparr>V = 1, Adj = [[\<lparr>To = 0, Weight = 0\<rparr>]]\<rparr>, Dist = [0], K = 2, T = 2,
         numWorkers = (if numCPU > 8 then 8 else numCPU)\<rparr>" for numCPU
    by (simp add: NewSolver_def tg_def Let_def)
  have push: "heapPush [] \<lparr>vertex = 0, priority = 0\<rparr> = [\<lparr>vertex = 0, priority = 0\<rparr>]"
    by (simp add: heapPush_def up.simps)
  have run: "Run fuel (NewSolver numCPU (TG tg)) (OriginalTo tg ! 0) = OutOfFuel"
    for numCPU fuel
    unfolding s
    by (simp add: Run_def maxLevel_def tg_def BMSSP.simps BaseCase_def setAdd_def
        push BaseCase_loop_self_loop Let_def)
  have ref: "naiveDijkstra (NewGraph 1) 0 = Returns [0]"
    by (simp add: naiveDijkstra_def NewGraph_def Infinity_pos)
  from ToConstantDegree_single_vertex run ref show ?thesis
    unfolding tg_def by blast
qed

section \<open>Distances never increase\<close>

lemma le_update:
  assumes "list_all2 (\<le>) d' (d::real list)" "v < length d'" "x \<le> d' ! v"
  shows "list_all2 (\<le>) (d'[v := x]) d"
proof -
  from assms(1) have len: "length d' = length d" and le: "\<And>i. i < length d' \<Longrightarrow> d' ! i \<le> d ! i"
    by (auto simp: list_all2_conv_all_nth)
  show ?thesis
    unfolding list_all2_conv_all_nth
  proof (intro conjI allI impI)
    show "length (d'[v := x]) = length d" using len by simp
  next
    fix i assume "i < length (d'[v := x])"
    then have i: "i < length d'" by simp
    show "d'[v := x] ! i \<le> d ! i"
    proof (cases "i = v")
      case True
      with assms(2,3) le [OF i] show ?thesis by simp
    next
      case False
      with le [OF i] show ?thesis by simp
    qed
  qed
qed

lemma le_refl_list: "list_all2 (\<le>) (d::real list) d"
  by (simp add: list_all2_refl)

lemma le_trans_list:
  "list_all2 (\<le>) (a::real list) b \<Longrightarrow> list_all2 (\<le>) b c \<Longrightarrow> list_all2 (\<le>) a c"
  by (rule list_all2_trans [where ?P1.0 = "(\<le>)" and ?P2.0 = "(\<le>)"]) auto

lemma BaseCase_edges_mono:
  "BaseCase_edges Bnd u es d' pq = Returns (d'', pq') \<Longrightarrow> list_all2 (\<le>) d' d \<Longrightarrow>
   list_all2 (\<le>) d'' d"
proof (induction es arbitrary: d' pq)
  case Nil
  then show ?case by simp
next
  case (Cons e es)
  show ?case
  proof (cases "To e < length d'")
    case False
    with Cons.prems show ?thesis by (simp add: Let_def)
  next
    case v: True
    show ?thesis
    proof (cases "d' ! u + Weight e \<le> d' ! To e \<and> d' ! u + Weight e < Bnd")
      case True
      with v Cons.prems(1) have
        "BaseCase_edges Bnd u es (d'[To e := d' ! u + Weight e])
           (heapPush pq \<lparr>vertex = To e, priority = d' ! u + Weight e\<rparr>) = Returns (d'', pq')"
        by (simp add: Let_def)
      moreover have "list_all2 (\<le>) (d'[To e := d' ! u + Weight e]) d"
        using Cons.prems(2) v True by (intro le_update) auto
      ultimately show ?thesis by (rule Cons.IH)
    next
      case False
      with v Cons.prems(1) have "BaseCase_edges Bnd u es d' pq = Returns (d'', pq')"
        by (auto simp: Let_def)
      then show ?thesis using Cons.prems(2) by (rule Cons.IH)
    qed
  qed
qed

lemma BaseCase_loop_mono:
  "BaseCase_loop fuel g limit Bnd d' U0 pq = Returns (d'', U0') \<Longrightarrow> list_all2 (\<le>) d' d \<Longrightarrow>
   list_all2 (\<le>) d'' d"
proof (induction fuel arbitrary: d' U0 pq)
  case 0
  then show ?case
    by (subst (asm) BaseCase_loop.simps) (auto split: if_splits)
next
  case (Suc fuel)
  show ?case
  proof (cases "length pq > 0 \<and> length U0 < limit")
    case False
    with Suc.prems show ?thesis
      by (subst (asm) BaseCase_loop.simps) (auto split: if_splits)
  next
    case True
    obtain item pq1 where pop: "heapPop pq = (item, pq1)" by (cases "heapPop pq")
    from Suc.prems(1) True pop have run:
      "(if \<not> vertex item < length d' then Panics
        else if priority item > d' ! vertex item
        then BaseCase_loop fuel g limit Bnd d' U0 pq1
        else if \<not> vertex item < length (Adj g) then Panics
        else
          (case BaseCase_edges Bnd (vertex item) (Adj g ! vertex item) d' pq1 of
             Returns (dists', pq'') \<Rightarrow>
               BaseCase_loop fuel g limit Bnd dists' (setAdd U0 (vertex item)) pq''
           | Panics \<Rightarrow> Panics
           | OutOfFuel \<Rightarrow> OutOfFuel
           | Races \<Rightarrow> Races)) = Returns (d'', U0')"
      by (subst (asm) BaseCase_loop.simps) (simp add: Let_def)
    show ?thesis
    proof (cases "priority item > d' ! vertex item")
      case True
      with run have "BaseCase_loop fuel g limit Bnd d' U0 pq1 = Returns (d'', U0')"
        by (simp split: if_splits)
      then show ?thesis using Suc.prems(2) by (rule Suc.IH)
    next
      case False
      with run obtain d1 pq2 where
        e: "BaseCase_edges Bnd (vertex item) (Adj g ! vertex item) d' pq1 = Returns (d1, pq2)" and
        l: "BaseCase_loop fuel g limit Bnd d1 (setAdd U0 (vertex item)) pq2 = Returns (d'', U0')"
        by (auto split: if_splits outcome.splits)
      from e Suc.prems(2) have "list_all2 (\<le>) d1 d" by (rule BaseCase_edges_mono)
      with l show ?thesis by (rule Suc.IH)
    qed
  qed
qed

lemma BaseCase_mono:
  "BaseCase fuel s Bnd S = Returns (r, s') \<Longrightarrow> list_all2 (\<le>) (Dist s') (Dist s)"
  unfolding BaseCase_def Let_def
  by (auto split: if_splits outcome.splits dest!: BaseCase_loop_mono [OF _ le_refl_list])


lemma relaxKSteps_edges_mono:
  "relaxKSteps_edges Bnd u es (d', inW, Wi, W) = Returns (d'', inW', Wi', W') \<Longrightarrow>
   list_all2 (\<le>) d' d \<Longrightarrow> list_all2 (\<le>) d'' d"
proof (induction es arbitrary: d' inW Wi W)
  case Nil
  then show ?case by simp
next
  case (Cons e es)
  show ?case
  proof (cases "u < length d' \<and> To e < length d'")
    case False
    with Cons.prems show ?thesis by auto
  next
    case v: True
    show ?thesis
    proof (cases "d' ! u + Weight e < d' ! To e")
      case False
      with v Cons.prems(1) have
        "relaxKSteps_edges Bnd u es (d', inW, Wi, W) = Returns (d'', inW', Wi', W')"
        by (simp add: Let_def)
      then show ?thesis using Cons.prems(2) by (rule Cons.IH)
    next
      case True
      have le: "list_all2 (\<le>) (d'[To e := d' ! u + Weight e]) d"
        using Cons.prems(2) v True by (intro le_update) auto
      from v True Cons.prems(1) obtain inW1 Wi1 W1 where
        "relaxKSteps_edges Bnd u es (d'[To e := d' ! u + Weight e], inW1, Wi1, W1) =
           Returns (d'', inW', Wi', W')"
        by (auto simp: Let_def split: if_splits)
      then show ?thesis using le by (rule Cons.IH)
    qed
  qed
qed

lemma relaxKSteps_round_mono:
  "relaxKSteps_round g Bnd us (d', inW, Wi, W) = Returns (d'', inW', Wi', W') \<Longrightarrow>
   list_all2 (\<le>) d' d \<Longrightarrow> list_all2 (\<le>) d'' d"
proof (induction us arbitrary: d' inW Wi W)
  case Nil
  then show ?case by simp
next
  case (Cons u us)
  from Cons.prems(1) obtain d1 inW1 Wi1 W1 where
    e: "relaxKSteps_edges Bnd u (Adj g ! u) (d', inW, Wi, W) = Returns (d1, inW1, Wi1, W1)" and
    r: "relaxKSteps_round g Bnd us (d1, inW1, Wi1, W1) = Returns (d'', inW', Wi', W')"
    by (auto split: if_splits outcome.splits)
  from e Cons.prems(2) have "list_all2 (\<le>) d1 d" by (rule relaxKSteps_edges_mono)
  with r show ?case by (rule Cons.IH)
qed

lemma relaxKSteps_loop_mono:
  "relaxKSteps_loop n g k lenS Bnd Wp (d', inW, W) = Returns (d'', inW', W') \<Longrightarrow>
   list_all2 (\<le>) d' d \<Longrightarrow> list_all2 (\<le>) d'' d"
proof (induction n arbitrary: Wp d' inW W)
  case 0
  then show ?case by simp
next
  case (Suc n)
  from Suc.prems(1) obtain d1 inW1 Wi1 W1 where
    r: "relaxKSteps_round g Bnd Wp (d', inW, [], W) = Returns (d1, inW1, Wi1, W1)" and
    l: "(if length W1 > k * lenS then Returns (d1, inW1, W1)
         else relaxKSteps_loop n g k lenS Bnd Wi1 (d1, inW1, W1)) = Returns (d'', inW', W')"
    by (auto split: outcome.splits)
  from r Suc.prems(2) have le: "list_all2 (\<le>) d1 d" by (rule relaxKSteps_round_mono)
  show ?case
  proof (cases "length W1 > k * lenS")
    case True
    with l le show ?thesis by simp
  next
    case False
    with l have "relaxKSteps_loop n g k lenS Bnd Wi1 (d1, inW1, W1) = Returns (d'', inW', W')"
      by simp
    then show ?thesis using le by (rule Suc.IH)
  qed
qed

lemma FindPivots_mono:
  "FindPivots s Bnd S = Returns (r, s') \<Longrightarrow> list_all2 (\<le>) (Dist s') (Dist s)"
  unfolding FindPivots_def relaxKSteps_def Let_def
  by (auto split: if_splits outcome.splits dest!: relaxKSteps_loop_mono [OF _ le_refl_list])

lemma relaxEdges_edges_mono:
  "relaxEdges_edges Bi Bi' Bnd u es (d', D, Kb) = Returns (d'', D', Kb') \<Longrightarrow>
   list_all2 (\<le>) d' d \<Longrightarrow> list_all2 (\<le>) d'' d"
proof (induction es arbitrary: d' D Kb)
  case Nil
  then show ?case by simp
next
  case (Cons e es)
  show ?case
  proof (cases "u < length d' \<and> To e < length d'")
    case False
    with Cons.prems show ?thesis by auto
  next
    case v: True
    show ?thesis
    proof (cases "d' ! u + Weight e \<le> d' ! To e")
      case False
      with v Cons.prems(1) have
        "relaxEdges_edges Bi Bi' Bnd u es (d', D, Kb) = Returns (d'', D', Kb')"
        by (simp add: Let_def)
      then show ?thesis using Cons.prems(2) by (rule Cons.IH)
    next
      case True
      have le: "list_all2 (\<le>) (d'[To e := d' ! u + Weight e]) d"
        using Cons.prems(2) v True by (intro le_update) auto
      from v True Cons.prems(1) obtain D1 Kb1 where
        "relaxEdges_edges Bi Bi' Bnd u es (d'[To e := d' ! u + Weight e], D1, Kb1) =
           Returns (d'', D', Kb')"
        by (auto simp: Let_def split: if_splits outcome.splits)
      then show ?thesis using le by (rule Cons.IH)
    qed
  qed
qed

lemma relaxEdgesSequential_mono:
  "relaxEdgesSequential g Bi Bi' Bnd us (d', D, Kb) = Returns (d'', D', Kb') \<Longrightarrow>
   list_all2 (\<le>) d' d \<Longrightarrow> list_all2 (\<le>) d'' d"
proof (induction us arbitrary: d' D Kb)
  case Nil
  then show ?case by simp
next
  case (Cons u us)
  from Cons.prems(1) obtain d1 D1 Kb1 where
    e: "relaxEdges_edges Bi Bi' Bnd u (Adj g ! u) (d', D, Kb) = Returns (d1, D1, Kb1)" and
    r: "relaxEdgesSequential g Bi Bi' Bnd us (d1, D1, Kb1) = Returns (d'', D', Kb')"
    by (auto split: if_splits outcome.splits)
  from e Cons.prems(2) have "list_all2 (\<le>) d1 d" by (rule relaxEdges_edges_mono)
  with r show ?case by (rule Cons.IH)
qed

lemma relaxEdges_mono:
  "relaxEdges s Ui Bi Bi' Bnd D = Returns (r, s') \<Longrightarrow> list_all2 (\<le>) (Dist s') (Dist s)"
  unfolding relaxEdges_def
  by (auto simp: le_refl_list split: outcome.splits if_splits
      dest!: relaxEdgesSequential_mono [OF _ le_refl_list])

lemma finalizeBMSSP_state: "finalizeBMSSP s Bnd W U = Returns (r, s') \<Longrightarrow> s' = s"
  by (auto simp: finalizeBMSSP_def split: if_splits)

lemma BMSSP_elim:
  assumes "BMSSP fuel s l Bnd S = Returns (r, s')" and "l \<noteq> 0"
  obtains
    (no_pivot) P W s1 where
      "FindPivots s Bnd S = Returns ((P, W), s1)" "length P = 0"
      "finalizeBMSSP s1 Bnd W [] = Returns (r, s')"
  | (main_loop) P W s1 D fuel' U s2 where
      "fuel = Suc fuel'" "FindPivots s Bnd S = Returns ((P, W), s1)" "length P \<noteq> 0"
      "initializeDataStructure s1 l P = Returns D"
      "processMainLoop fuel' s1 l Bnd D W [] = Returns (U, s2)"
      "finalizeBMSSP s2 Bnd W U = Returns (r, s')"
  using assms
  by (subst (asm) BMSSP.simps) (auto split: outcome.splits if_splits nat.splits)

lemma case_ReturnsD:
  "(case m of Returns x \<Rightarrow> f x | Panics \<Rightarrow> Panics | OutOfFuel \<Rightarrow> OutOfFuel
     | Races \<Rightarrow> Races) = Returns y \<Longrightarrow>
   \<exists>x. m = Returns x \<and> f x = Returns y"
  by (cases m) auto

lemma processMainLoop_elim:
  assumes "processMainLoop fuel s l Bnd D W U = Returns (r, s')"
  obtains
    (stop) "\<not> (length U < K s * 2 ^ (l * T s) \<and> Count D > 0)" "r = U" "s' = s"
  | (early) fuel' Si Bi D1 Bi' Ui s1 Kb D2 s2 D3 where
      "fuel = Suc fuel'" "length U < K s * 2 ^ (l * T s)" "Count D > 0"
      "pullAndExtract D = Returns ((Si, Bi), D1)"
      "BMSSP fuel' s (l - 1) Bi Si = Returns ((Bi', Ui), s1)"
      "relaxEdges s1 Ui Bi Bi' Bnd D1 = Returns ((Kb, D2), s2)"
      "batchPrepend s2 D2 Kb Si Bi' Bi = Returns D3"
      "length (addToSet U Ui) > K s * 2 ^ (l * T s)"
      "buildFinalSet s2 (addToSet U Ui) W Bi' = Returns r" "s' = s2"
  | (continue) fuel' Si Bi D1 Bi' Ui s1 Kb D2 s2 D3 where
      "fuel = Suc fuel'" "length U < K s * 2 ^ (l * T s)" "Count D > 0"
      "pullAndExtract D = Returns ((Si, Bi), D1)"
      "BMSSP fuel' s (l - 1) Bi Si = Returns ((Bi', Ui), s1)"
      "relaxEdges s1 Ui Bi Bi' Bnd D1 = Returns ((Kb, D2), s2)"
      "batchPrepend s2 D2 Kb Si Bi' Bi = Returns D3"
      "\<not> length (addToSet U Ui) > K s * 2 ^ (l * T s)"
      "processMainLoop fuel' s2 l Bnd D3 W (addToSet U Ui) = Returns (r, s')"
proof (cases "length U < K s * 2 ^ (l * T s) \<and> Count D > 0")
  case False
  with assms have "r = U" "s' = s"
    by (subst (asm) processMainLoop.simps; simp add: Let_def)+
  with False show ?thesis by (rule stop)
next
  case True
  with assms obtain fuel' where fuel: "fuel = Suc fuel'"
    by (subst (asm) processMainLoop.simps) (cases fuel; simp add: Let_def)
  from assms True have
    "(case pullAndExtract D of
        Returns ((Si, Bi), D1) \<Rightarrow>
          (case BMSSP fuel' s (l - 1) Bi Si of
             Returns ((Bi', Ui), s1) \<Rightarrow>
               (let U1 = addToSet U Ui
                in case relaxEdges s1 Ui Bi Bi' Bnd D1 of
                  Returns ((Kb, D2), s2) \<Rightarrow>
                    (case batchPrepend s2 D2 Kb Si Bi' Bi of
                       Returns D3 \<Rightarrow>
                         (if length U1 > K s * 2 ^ (l * T s) then
                            (case buildFinalSet s2 U1 W Bi' of
                               Returns U2 \<Rightarrow> Returns (U2, s2)
                             | Panics \<Rightarrow> Panics
                             | OutOfFuel \<Rightarrow> OutOfFuel
                             | Races \<Rightarrow> Races)
                          else processMainLoop fuel' s2 l Bnd D3 W U1)
                     | Panics \<Rightarrow> Panics
                     | OutOfFuel \<Rightarrow> OutOfFuel
                     | Races \<Rightarrow> Races)
                | Panics \<Rightarrow> Panics
                | OutOfFuel \<Rightarrow> OutOfFuel
                | Races \<Rightarrow> Races)
           | Panics \<Rightarrow> Panics
           | OutOfFuel \<Rightarrow> OutOfFuel
           | Races \<Rightarrow> Races)
      | Panics \<Rightarrow> Panics
      | OutOfFuel \<Rightarrow> OutOfFuel
      | Races \<Rightarrow> Races) = Returns (r, s')"
    unfolding fuel by (subst (asm) processMainLoop.simps) (simp add: Let_def)
  from case_ReturnsD [OF this] obtain Si Bi D1 where
    pull: "pullAndExtract D = Returns ((Si, Bi), D1)" and
    r1: "(case BMSSP fuel' s (l - 1) Bi Si of
             Returns ((Bi', Ui), s1) \<Rightarrow>
               (let U1 = addToSet U Ui
                in case relaxEdges s1 Ui Bi Bi' Bnd D1 of
                  Returns ((Kb, D2), s2) \<Rightarrow>
                    (case batchPrepend s2 D2 Kb Si Bi' Bi of
                       Returns D3 \<Rightarrow>
                         (if length U1 > K s * 2 ^ (l * T s) then
                            (case buildFinalSet s2 U1 W Bi' of
                               Returns U2 \<Rightarrow> Returns (U2, s2)
                             | Panics \<Rightarrow> Panics
                             | OutOfFuel \<Rightarrow> OutOfFuel
                             | Races \<Rightarrow> Races)
                          else processMainLoop fuel' s2 l Bnd D3 W U1)
                     | Panics \<Rightarrow> Panics
                     | OutOfFuel \<Rightarrow> OutOfFuel
                     | Races \<Rightarrow> Races)
                | Panics \<Rightarrow> Panics
                | OutOfFuel \<Rightarrow> OutOfFuel
                | Races \<Rightarrow> Races)
           | Panics \<Rightarrow> Panics
           | OutOfFuel \<Rightarrow> OutOfFuel
           | Races \<Rightarrow> Races) = Returns (r, s')"
    by (auto split: prod.splits)
  from case_ReturnsD [OF r1] obtain Bi' Ui s1 where
    bm: "BMSSP fuel' s (l - 1) Bi Si = Returns ((Bi', Ui), s1)" and
    r2: "(case relaxEdges s1 Ui Bi Bi' Bnd D1 of
                  Returns ((Kb, D2), s2) \<Rightarrow>
                    (case batchPrepend s2 D2 Kb Si Bi' Bi of
                       Returns D3 \<Rightarrow>
                         (if length (addToSet U Ui) > K s * 2 ^ (l * T s) then
                            (case buildFinalSet s2 (addToSet U Ui) W Bi' of
                               Returns U2 \<Rightarrow> Returns (U2, s2)
                             | Panics \<Rightarrow> Panics
                             | OutOfFuel \<Rightarrow> OutOfFuel
                             | Races \<Rightarrow> Races)
                          else processMainLoop fuel' s2 l Bnd D3 W (addToSet U Ui))
                     | Panics \<Rightarrow> Panics
                     | OutOfFuel \<Rightarrow> OutOfFuel
                     | Races \<Rightarrow> Races)
                | Panics \<Rightarrow> Panics
                | OutOfFuel \<Rightarrow> OutOfFuel
                | Races \<Rightarrow> Races) = Returns (r, s')"
    by (auto simp: Let_def split: prod.splits)
  from case_ReturnsD [OF r2] obtain Kb D2 s2 where
    re: "relaxEdges s1 Ui Bi Bi' Bnd D1 = Returns ((Kb, D2), s2)" and
    r3: "(case batchPrepend s2 D2 Kb Si Bi' Bi of
                       Returns D3 \<Rightarrow>
                         (if length (addToSet U Ui) > K s * 2 ^ (l * T s) then
                            (case buildFinalSet s2 (addToSet U Ui) W Bi' of
                               Returns U2 \<Rightarrow> Returns (U2, s2)
                             | Panics \<Rightarrow> Panics
                             | OutOfFuel \<Rightarrow> OutOfFuel
                             | Races \<Rightarrow> Races)
                          else processMainLoop fuel' s2 l Bnd D3 W (addToSet U Ui))
                     | Panics \<Rightarrow> Panics
                     | OutOfFuel \<Rightarrow> OutOfFuel
                     | Races \<Rightarrow> Races) = Returns (r, s')"
    by (auto split: prod.splits)
  from case_ReturnsD [OF r3] obtain D3 where
    bp: "batchPrepend s2 D2 Kb Si Bi' Bi = Returns D3" and
    r4: "(if length (addToSet U Ui) > K s * 2 ^ (l * T s) then
            (case buildFinalSet s2 (addToSet U Ui) W Bi' of
               Returns U2 \<Rightarrow> Returns (U2, s2)
             | Panics \<Rightarrow> Panics
             | OutOfFuel \<Rightarrow> OutOfFuel
             | Races \<Rightarrow> Races)
          else processMainLoop fuel' s2 l Bnd D3 W (addToSet U Ui)) = Returns (r, s')"
    by auto
  show ?thesis
  proof (cases "length (addToSet U Ui) > K s * 2 ^ (l * T s)")
    case big: True
    with r4 have "(case buildFinalSet s2 (addToSet U Ui) W Bi' of
               Returns U2 \<Rightarrow> Returns (U2, s2)
             | Panics \<Rightarrow> Panics
             | OutOfFuel \<Rightarrow> OutOfFuel
             | Races \<Rightarrow> Races) = Returns (r, s')" by simp
    from case_ReturnsD [OF this] have "buildFinalSet s2 (addToSet U Ui) W Bi' = Returns r" "s' = s2"
      by auto
    with fuel True pull bm re bp big show ?thesis by (intro early) auto
  next
    case small: False
    with r4 have "processMainLoop fuel' s2 l Bnd D3 W (addToSet U Ui) = Returns (r, s')" by simp
    with fuel True pull bm re bp small show ?thesis by (intro continue) auto
  qed
qed

lemma BMSSP_processMainLoop_mono:
  "(\<forall>s l Bnd S r s'. BMSSP fuel s l Bnd S = Returns (r, s') \<longrightarrow>
       list_all2 (\<le>) (Dist s') (Dist s)) \<and>
   (\<forall>s l Bnd D W U r s'. processMainLoop fuel s l Bnd D W U = Returns (r, s') \<longrightarrow>
       list_all2 (\<le>) (Dist s') (Dist s))"
proof (induction fuel rule: less_induct)
  case (less fuel)
  then have ihB: "\<And>f s l Bnd S r s'. f < fuel \<Longrightarrow> BMSSP f s l Bnd S = Returns (r, s') \<Longrightarrow>
       list_all2 (\<le>) (Dist s') (Dist s)"
    and ihP: "\<And>f s l Bnd D W U r s'. f < fuel \<Longrightarrow>
       processMainLoop f s l Bnd D W U = Returns (r, s') \<Longrightarrow>
       list_all2 (\<le>) (Dist s') (Dist s)"
    by blast+
  have a: "list_all2 (\<le>) (Dist s') (Dist s)"
    if run: "BMSSP fuel s l Bnd S = Returns (r, s')" for s l Bnd S r s'
  proof (cases "l = 0")
    case True
    with run show ?thesis by (simp add: BMSSP.simps BaseCase_mono)
  next
    case False
    from run False show ?thesis
    proof (cases rule: BMSSP_elim)
      case (no_pivot P W s1)
      from no_pivot(3) have "s' = s1" by (rule finalizeBMSSP_state)
      with FindPivots_mono [OF no_pivot(1)] show ?thesis by simp
    next
      case (main_loop P W s1 D fuel' U s2)
      from main_loop(6) have "s' = s2" by (rule finalizeBMSSP_state)
      moreover from main_loop(1) have "fuel' < fuel" by simp
      ultimately show ?thesis
        using ihP [OF _ main_loop(5)] FindPivots_mono [OF main_loop(2)]
        by (auto intro: le_trans_list)
    qed
  qed
  have b: "list_all2 (\<le>) (Dist s') (Dist s)"
    if run: "processMainLoop fuel s l Bnd D W U = Returns (r, s')" for s l Bnd D W U r s'
    using run
  proof (cases rule: processMainLoop_elim)
    case stop
    then show ?thesis by (simp add: le_refl_list)
  next
    case (early fuel' Si Bi D1 Bi' Ui s1 Kb D2 s2 D3)
    from early(1) have "fuel' < fuel" by simp
    from ihB [OF this early(5)] relaxEdges_mono [OF early(6)] early(10)
    show ?thesis by (auto intro: le_trans_list)
  next
    case (continue fuel' Si Bi D1 Bi' Ui s1 Kb D2 s2 D3)
    from continue(1) have f: "fuel' < fuel" by simp
    from ihB [OF f continue(5)] relaxEdges_mono [OF continue(6)] ihP [OF f continue(9)]
    show ?thesis by (blast intro: le_trans_list)
  qed
  from a b show ?case by blast
qed


lemma BMSSP_mono:
  "BMSSP fuel s l Bnd S = Returns (r, s') \<Longrightarrow> list_all2 (\<le>) (Dist s') (Dist s)"
  using BMSSP_processMainLoop_mono [of fuel] by blast

lemma Run_mono:
  assumes "Run fuel s source = Returns (d, s')"
  shows "list_all2 (\<le>) d ((replicate (length (Dist s)) Infinity)[source := 0])"
proof -
  let ?s1 = "s\<lparr>Dist := (replicate (length (Dist s)) Infinity)[source := 0]\<rparr>"
  from assms obtain r s2 where
    run: "BMSSP fuel ?s1 (maxLevel (V (G s)) (T s)) Infinity [source] = Returns (r, s2)" and
    d: "d = Dist s2"
    by (auto simp: Run_def Let_def split: if_splits outcome.splits)
  from BMSSP_mono [OF run] d show ?thesis by simp
qed

text \<open>
  Without goroutines the distance vector never increases.  Each of the three loops that
  write \<open>dist\<close> sequentially (the edge loop of the base case, of the pivot-finding
  relaxation and of \<^verbatim>\<open>relaxEdgesSequential\<close>) returns, after any sequence of its guarded
  writes, a vector that is pointwise at most the vector it started from; so does every
  call of \<open>BMSSP\<close> that returns without having started \<^verbatim>\<open>relaxEdgesParallel\<close>, at
  every level; and what such a \<open>Run\<close> returns is pointwise at most the vector it
  initialised (\<open>Infinity\<close> everywhere, 0 at the source).  No assumption on the weights
  is needed: every write is guarded by the comparison with the value it replaces.
\<close>

theorem dist_never_increases_sequential:
  "(BaseCase_edges Bnd u es d pq = Returns (dA, pqA) \<longrightarrow> list_all2 (\<le>) dA d) \<and>
   (relaxKSteps_edges Bnd u es (d, inW, Wi, W) = Returns (dB, inWB, WiB, WB) \<longrightarrow>
      list_all2 (\<le>) dB d) \<and>
   (relaxEdges_edges Bi Bi' Bnd u es (d, D, Kb) = Returns (dC, DC, KbC) \<longrightarrow>
      list_all2 (\<le>) dC d) \<and>
   (BMSSP fuel s l Bnd S = Returns (r, s') \<longrightarrow> list_all2 (\<le>) (Dist s') (Dist s)) \<and>
   (Run fuel s source = Returns (dD, sD) \<longrightarrow>
      list_all2 (\<le>) dD ((replicate (length (Dist s)) Infinity)[source := 0]))"
proof (intro conjI impI)
  assume "BaseCase_edges Bnd u es d pq = Returns (dA, pqA)"
  then show "list_all2 (\<le>) dA d" using le_refl_list by (rule BaseCase_edges_mono)
next
  assume "relaxKSteps_edges Bnd u es (d, inW, Wi, W) = Returns (dB, inWB, WiB, WB)"
  then show "list_all2 (\<le>) dB d" using le_refl_list by (rule relaxKSteps_edges_mono)
next
  assume "relaxEdges_edges Bi Bi' Bnd u es (d, D, Kb) = Returns (dC, DC, KbC)"
  then show "list_all2 (\<le>) dC d" using le_refl_list by (rule relaxEdges_edges_mono)
next
  assume "BMSSP fuel s l Bnd S = Returns (r, s')"
  then show "list_all2 (\<le>) (Dist s') (Dist s)" by (rule BMSSP_mono)
next
  assume "Run fuel s source = Returns (dD, sD)"
  then show "list_all2 (\<le>) dD ((replicate (length (Dist s)) Infinity)[source := 0])"
    by (rule Run_mono)
qed

text \<open>Evaluation at concrete inputs: comparisons with \<open>Infinity\<close>.\<close>

lemma Infinity_large: "1000000 < Infinity"
  by (simp add: Infinity_def)

lemma Infinity_cmp:
  "x \<le> 1000000 \<Longrightarrow> x < Infinity"
  "x \<le> 1000000 \<Longrightarrow> x \<le> Infinity"
  "x \<le> 1000000 \<Longrightarrow> \<not> Infinity < x"
  "x \<le> 1000000 \<Longrightarrow> \<not> Infinity \<le> x"
  "x \<le> 1000000 \<Longrightarrow> x \<noteq> Infinity"
  "x \<le> 1000000 \<Longrightarrow> Infinity \<noteq> x"
  using Infinity_large by auto

lemma maxLevel_2: "maxLevel 2 2 = 1"
proof -
  have "0 < ln (2::real)" by simp
  moreover have "ln (2::real) \<le> 2" using ln_less_self [of 2] by linarith
  ultimately have "\<lceil>ln (2::real) / 2\<rceil> = 1" by (simp add: ceiling_eq_iff)
  then show ?thesis by (simp add: maxLevel_def)
qed

text \<open>
  A run that returns: the graph \<open>twoPath\<close>, \<open>k = t = 2\<close>, level 1, source 0.
\<close>

lemma BMSSP_twoPath:
  "BMSSP 5 \<lparr>G = twoPath, Dist = [0, Infinity], K = 2, T = 2, numWorkers = 8\<rparr> 1 Infinity [0] =
   Returns ((Infinity, [0, 1]), \<lparr>G = twoPath, Dist = [0, 1], K = 2, T = 2, numWorkers = 8\<rparr>)"
  by (simp add: BMSSP.simps processMainLoop.simps FindPivots_def relaxKSteps_def
      numeral_2_eq_2 computePivots_def calcSize.simps
      initializeDataStructure_def NewDataStructure_def Insert_def Search_def Search_loop.simps
      newBlock_def pullAndExtract_def Pull_def sortBlock_def peekBlock_def
      BaseCase_def BaseCase_loop.simps heapPop_def heapPush_def up.simps down.simps Less_def
      Swap_def setAdd_def addToSet_def maxDist_def relaxEdges_def batchPrepend_def
      BatchPrepend_def buildFinalSet_def finalizeBMSSP_def twoPath_def Infinity_cmp Let_def)

lemma Run_twoPath:
  "Run 5 \<lparr>G = twoPath, Dist = [7, 7], K = 2, T = 2, numWorkers = 8\<rparr> 0 =
   Returns ([0, 1], \<lparr>G = twoPath, Dist = [0, 1], K = 2, T = 2, numWorkers = 8\<rparr>)"
proof -
  have v: "V twoPath = 2" by (simp add: twoPath_def)
  show ?thesis
    by (simp add: Run_def v maxLevel_2 BMSSP_twoPath Let_def del: One_nat_def)
qed

theorem dist_never_increases_sequential_witness:
  "BaseCase_edges 10 0 [\<lparr>To = 1, Weight = 1\<rparr>] [0, 5] [] =
     Returns ([0, 1], [\<lparr>vertex = 1, priority = 1\<rparr>]) \<and>
   list_all2 (\<le>) [0, 1] [0, 5 :: real] \<and>
   relaxKSteps_edges 10 0 [\<lparr>To = 1, Weight = 1\<rparr>] ([0, 5], [True, False], [], [0]) =
     Returns ([0, 1], [True, True], [1], [0, 1]) \<and>
   relaxEdges_edges 20 20 10 0 [\<lparr>To = 1, Weight = 1\<rparr>] ([0, 5], NewDataStructure 1, []) =
     Returns ([0, 1], NewDataStructure 1, []) \<and>
   BMSSP 5 \<lparr>G = twoPath, Dist = [0, Infinity], K = 2, T = 2, numWorkers = 8\<rparr> 1 Infinity [0] =
     Returns ((Infinity, [0, 1]), \<lparr>G = twoPath, Dist = [0, 1], K = 2, T = 2, numWorkers = 8\<rparr>) \<and>
   list_all2 (\<le>) [0, 1] [0, Infinity] \<and>
   Run 5 \<lparr>G = twoPath, Dist = [7, 7], K = 2, T = 2, numWorkers = 8\<rparr> 0 =
     Returns ([0, 1], \<lparr>G = twoPath, Dist = [0, 1], K = 2, T = 2, numWorkers = 8\<rparr>) \<and>
   list_all2 (\<le>) [0, 1] ((replicate (length [7, 7 :: real]) Infinity)[0 := 0])"
proof -
  have w1: "BaseCase_edges 10 0 [\<lparr>To = 1, Weight = 1\<rparr>] [0, 5] [] =
      Returns ([0, 1], [\<lparr>vertex = 1, priority = 1\<rparr>])"
    by (simp add: heapPush_def up.simps)
  have w2: "relaxKSteps_edges 10 0 [\<lparr>To = 1, Weight = 1\<rparr>] ([0, 5], [True, False], [], [0]) =
      Returns ([0, 1], [True, True], [1], [0, 1])"
    by simp
  have w3: "relaxEdges_edges 20 20 10 0 [\<lparr>To = 1, Weight = 1\<rparr>]
      ([0, 5], NewDataStructure 1, []) = Returns ([0, 1], NewDataStructure 1, [])"
    by simp
  note inst1 = dist_never_increases_sequential
    [where Bnd = 10 and u = 0 and es = "[\<lparr>To = 1, Weight = 1\<rparr>]" and d = "[0, 5]"
       and pq = "[]" and dA = "[0, 1]" and pqA = "[\<lparr>vertex = 1, priority = 1\<rparr>]"
       and fuel = 5 and s = "\<lparr>G = twoPath, Dist = [7, 7], K = 2, T = 2, numWorkers = 8\<rparr>" and source = 0
       and dD = "[0, 1]" and sD = "\<lparr>G = twoPath, Dist = [0, 1], K = 2, T = 2, numWorkers = 8\<rparr>"]
  note inst2 = dist_never_increases_sequential
    [where fuel = 5 and s = "\<lparr>G = twoPath, Dist = [0, Infinity], K = 2, T = 2, numWorkers = 8\<rparr>"
       and l = 1 and Bnd = Infinity and S = "[0]" and r = "(Infinity, [0, 1])"
       and s' = "\<lparr>G = twoPath, Dist = [0, 1], K = 2, T = 2, numWorkers = 8\<rparr>"]
  from inst1 w1 have a: "list_all2 (\<le>) [0, 1] [0, 5 :: real]" by blast
  from inst2 BMSSP_twoPath have b: "list_all2 (\<le>) [0, 1] [0, Infinity]" by simp
  from inst1 Run_twoPath
  have c: "list_all2 (\<le>) [0, 1] ((replicate (length [7, 7 :: real]) Infinity)[0 := 0])"
    by simp
  from w1 a w2 w3 BMSSP_twoPath b Run_twoPath c show ?thesis by blast
qed

section \<open>The base case\<close>

lemma setAdd_distinct: "distinct U \<Longrightarrow> distinct (setAdd U u)"
  by (simp add: setAdd_def)

lemma set_setAdd: "set (setAdd U u) = insert u (set U)"
  by (auto simp: setAdd_def)

lemma length_setAdd: "length (setAdd U u) \<le> Suc (length U)"
  by (simp add: setAdd_def)

lemma seed_set:
  "distinct U \<Longrightarrow> distinct (fold (\<lambda>x U. setAdd U x) S U) \<and>
     set (fold (\<lambda>x U. setAdd U x) S U) = set U \<union> set S"
  by (induction S arbitrary: U) (auto simp: setAdd_distinct set_setAdd)

lemma BaseCase_loop_settled:
  "BaseCase_loop fuel g limit Bnd d U0 pq = Returns (d', U0') \<Longrightarrow> distinct U0 \<Longrightarrow>
   distinct U0' \<and> set U0 \<subseteq> set U0' \<and> length U0' \<le> max limit (length U0)"
proof (induction fuel arbitrary: d U0 pq)
  case 0
  then show ?case
    by (subst (asm) BaseCase_loop.simps) (auto split: if_splits)
next
  case (Suc fuel)
  show ?case
  proof (cases "length pq > 0 \<and> length U0 < limit")
    case False
    with Suc.prems show ?thesis
      by (subst (asm) BaseCase_loop.simps) (auto split: if_splits)
  next
    case True
    obtain item pq1 where pop: "heapPop pq = (item, pq1)" by (cases "heapPop pq")
    from Suc.prems(1) True pop have run:
      "(if \<not> vertex item < length d then Panics
        else if priority item > d ! vertex item
        then BaseCase_loop fuel g limit Bnd d U0 pq1
        else if \<not> vertex item < length (Adj g) then Panics
        else
          (case BaseCase_edges Bnd (vertex item) (Adj g ! vertex item) d pq1 of
             Returns (dists', pq'') \<Rightarrow>
               BaseCase_loop fuel g limit Bnd dists' (setAdd U0 (vertex item)) pq''
           | Panics \<Rightarrow> Panics
           | OutOfFuel \<Rightarrow> OutOfFuel
           | Races \<Rightarrow> Races)) = Returns (d', U0')"
      by (subst (asm) BaseCase_loop.simps) (simp add: Let_def)
    show ?thesis
    proof (cases "priority item > d ! vertex item")
      case True
      with run have "BaseCase_loop fuel g limit Bnd d U0 pq1 = Returns (d', U0')"
        by (simp split: if_splits)
      then show ?thesis using Suc.prems(2) by (rule Suc.IH)
    next
      case False
      with run obtain d1 pq2 where
        l: "BaseCase_loop fuel g limit Bnd d1 (setAdd U0 (vertex item)) pq2 = Returns (d', U0')"
        by (auto split: if_splits outcome.splits)
      from Suc.IH [OF l setAdd_distinct [OF Suc.prems(2)]]
      have "distinct U0'" "set (setAdd U0 (vertex item)) \<subseteq> set U0'"
        "length U0' \<le> max limit (length (setAdd U0 (vertex item)))" by auto
      moreover have "length (setAdd U0 (vertex item)) \<le> limit"
        using True length_setAdd [of U0 "vertex item"] by linarith
      ultimately show ?thesis by (auto simp: set_setAdd)
    qed
  qed
qed

lemma maxDist_Max: "maxDist d U0 = Max (insert 0 ((\<lambda>u. d ! u) ` set U0))"
proof -
  have step: "(\<lambda>u maxD. if d ! u > maxD then d ! u else maxD) = (\<lambda>u. max (d ! u))"
    by (auto simp: fun_eq_iff max_def)
  have "fold (\<lambda>u. max (d ! u)) U0 m = Max (insert m ((\<lambda>u. d ! u) ` set U0))" for m
  proof (induction U0 arbitrary: m)
    case Nil
    show ?case by simp
  next
    case (Cons u U0)
    have "Max (insert (max (d ! u) m) ((\<lambda>u. d ! u) ` set U0)) =
          Max (insert m (insert (d ! u) ((\<lambda>u. d ! u) ` set U0)))"
      by (cases "U0 = []") (auto simp: max.commute max.left_commute)
    with Cons show ?case by simp
  qed
  then show ?thesis by (simp add: maxDist_def step)
qed


text \<open>
  Claim C5, as stated, fails: with more than \<open>k + 1\<close> distinct sources, all below the
  bound, every source is put into the settled set before the loop starts.  Five isolated
  vertices at distances 0, 1, 2, 3, 4, the bound 10 and \<open>k = 2\<close>: the settled set has
  five vertices and the call returns four of them, more than \<open>k + 1 = 3\<close>.
\<close>

theorem BaseCase_settles_more_than_k_plus_1:
  "BaseCase 0 \<lparr>G = NewGraph 5, Dist = [0, 1, 2, 3, 4], K = 2, T = 2, numWorkers = 8\<rparr> 10 [0, 1, 2, 3, 4] =
     Returns ((4, [0, 1, 2, 3]), \<lparr>G = NewGraph 5, Dist = [0, 1, 2, 3, 4], K = 2, T = 2, numWorkers = 8\<rparr>) \<and>
   K \<lparr>G = NewGraph 5, Dist = [0, 1, 2, 3, 4], K = 2, T = 2, numWorkers = 8\<rparr> + 1 < length [0, 1, 2, 3 :: nat]"
  by (simp add: BaseCase_def BaseCase_loop.simps setAdd_def maxDist_def Let_def)

text \<open>
  Claim C5, amended.  Whenever \<open>BaseCase\<close> returns, there is a settled set \<open>U0\<close>
  (without repetition) that contains the sources and has at most \<open>max (k + 1) |S|\<close>
  vertices, hence at most \<open>k + 1\<close> when there are at most \<open>k + 1\<close> distinct sources;
  if \<open>|U0| \<le> k\<close> the call returns \<open>(B, U0)\<close>; otherwise it returns \<open>(B', U)\<close>
  where \<open>B'\<close> is the maximum of 0 and the distances of \<open>U0\<close> (the maximum of the
  distances, when none of them is negative) and \<open>U\<close> holds the vertices of \<open>U0\<close>
  whose distance is below \<open>B'\<close>.  That the call returns is not part of the statement.
\<close>

theorem BaseCase_result:
  assumes "BaseCase fuel s Bnd S = Returns ((B', U), s')"
  shows "\<exists>U0. distinct U0 \<and> set S \<subseteq> set U0 \<and>
           length U0 \<le> max (K s + 1) (card (set S)) \<and>
           (length U0 \<le> K s \<longrightarrow> B' = Bnd \<and> U = U0) \<and>
           (K s < length U0 \<longrightarrow>
              B' = Max (insert 0 ((\<lambda>u. Dist s' ! u) ` set U0)) \<and>
              ((\<forall>u\<in>set U0. 0 \<le> Dist s' ! u) \<longrightarrow> B' = Max ((\<lambda>u. Dist s' ! u) ` set U0)) \<and>
              U = filter (\<lambda>u. Dist s' ! u < B') U0)"
proof -
  define seed where "seed = fold (\<lambda>x U. setAdd U x) S []"
  define pq where
    "pq = fold (\<lambda>x pq. heapPush pq \<lparr>vertex = x, priority = Dist s ! x\<rparr>) S []"
  from seed_set [of "[]" S] have seed: "distinct seed" "set seed = set S"
    by (auto simp: seed_def)
  then have lseed: "length seed = card (set S)"
    using distinct_card [of seed] by simp
  from assms obtain d U0 where
    loop: "BaseCase_loop fuel (G s) (K s + 1) Bnd (Dist s) seed pq = Returns (d, U0)" and
    res: "(if length U0 \<le> K s then Returns ((Bnd, U0), s\<lparr>Dist := d\<rparr>)
           else Returns ((maxDist d U0, filter (\<lambda>u. d ! u < maxDist d U0) U0), s\<lparr>Dist := d\<rparr>))
          = Returns ((B', U), s')"
    by (auto simp: BaseCase_def Let_def seed_def pq_def split: if_splits outcome.splits)
  from BaseCase_loop_settled [OF loop seed(1)] seed(2) lseed
  have U0: "distinct U0" "set S \<subseteq> set U0" "length U0 \<le> max (K s + 1) (card (set S))"
    by auto
  have small: "B' = Bnd \<and> U = U0" if "length U0 \<le> K s"
    using res that by simp
  have big: "B' = Max (insert 0 ((\<lambda>u. Dist s' ! u) ` set U0)) \<and>
      ((\<forall>u\<in>set U0. 0 \<le> Dist s' ! u) \<longrightarrow> B' = Max ((\<lambda>u. Dist s' ! u) ` set U0)) \<and>
      U = filter (\<lambda>u. Dist s' ! u < B') U0" if k: "K s < length U0"
  proof -
    from res k have B': "B' = maxDist d U0" and U: "U = filter (\<lambda>u. d ! u < maxDist d U0) U0"
      and s': "Dist s' = d" by auto
    from k have ne: "set U0 \<noteq> {}" by auto
    have m: "B' = Max (insert 0 ((\<lambda>u. Dist s' ! u) ` set U0))"
      by (simp add: B' s' maxDist_Max)
    have "B' = Max ((\<lambda>u. Dist s' ! u) ` set U0)" if nn: "\<forall>u\<in>set U0. 0 \<le> Dist s' ! u"
    proof -
      from ne obtain u0 where u0: "u0 \<in> set U0" by (cases U0) auto
      have "Max ((\<lambda>u. Dist s' ! u) ` set U0) \<ge> 0"
        using nn u0 by (subst Max_ge_iff) auto
      with ne show ?thesis by (simp add: m max_def)
    qed
    with m U B' s' show ?thesis by simp
  qed
  from U0 small big show ?thesis by blast
qed

lemma BaseCase_fourPath:
  "BaseCase 10 \<lparr>G = fourPath, Dist = [0, Infinity, Infinity, Infinity], K = 2, T = 2, numWorkers = 8\<rparr>
     Infinity [0] =
   Returns ((2, [0, 1]), \<lparr>G = fourPath, Dist = [0, 1, 2, 3], K = 2, T = 2, numWorkers = 8\<rparr>)"
  by (simp add: BaseCase_def BaseCase_loop.simps heapPop_def heapPush_def up.simps down.simps
      Less_def Swap_def setAdd_def maxDist_def fourPath_def Infinity_cmp Let_def)

theorem BaseCase_result_witness:
  "BaseCase 10 \<lparr>G = fourPath, Dist = [0, Infinity, Infinity, Infinity], K = 2, T = 2, numWorkers = 8\<rparr>
     Infinity [0] =
     Returns ((2, [0, 1]), \<lparr>G = fourPath, Dist = [0, 1, 2, 3], K = 2, T = 2, numWorkers = 8\<rparr>) \<and>
   (\<exists>U0. distinct U0 \<and> set [0] \<subseteq> set U0 \<and> length U0 \<le> 3 \<and> 2 < length U0 \<and>
      (2::real) = Max ((\<lambda>u. [0, 1, 2, 3] ! u) ` set U0) \<and>
      [0, 1] = filter (\<lambda>u. [0, 1, 2, 3 :: real] ! u < 2) U0)"
proof -
  from BaseCase_result [OF BaseCase_fourPath] obtain U0 where
    U0: "distinct U0" "set [0] \<subseteq> set U0" "length U0 \<le> 3"
      "length U0 \<le> 2 \<longrightarrow> (2::real) = Infinity \<and> [0, 1] = U0"
      "2 < length U0 \<longrightarrow>
         (2::real) = Max (insert 0 ((\<lambda>u. [0, 1, 2, 3] ! u) ` set U0)) \<and>
         ((\<forall>u\<in>set U0. 0 \<le> [0, 1, 2, 3 :: real] ! u) \<longrightarrow>
            (2::real) = Max ((\<lambda>u. [0, 1, 2, 3] ! u) ` set U0)) \<and>
         [0, 1] = filter (\<lambda>u. [0, 1, 2, 3 :: real] ! u < 2) U0"
    by auto
  have big: "2 < length U0"
    using U0(4) Infinity_large by (cases "length U0 \<le> 2") auto
  with U0(5) have m: "(2::real) = Max (insert 0 ((\<lambda>u. [0, 1, 2, 3] ! u) ` set U0))"
    and f: "[0, 1] = filter (\<lambda>u. [0, 1, 2, 3 :: real] ! u < 2) U0" by auto
  from big have ne: "set U0 \<noteq> {}" by auto
  have "Max ((\<lambda>u. [0, 1, 2, 3 :: real] ! u) ` set U0) \<ge> 0"
  proof -
    have "0 \<in> set [0, 1 :: nat]" by simp
    with f have "0 \<in> set (filter (\<lambda>u. [0, 1, 2, 3 :: real] ! u < 2) U0)" by simp
    then have z: "0 \<in> set U0" by simp
    show ?thesis
      using z by (subst Max_ge_iff) (auto intro!: bexI [of _ 0])
  qed
  with m ne have "(2::real) = Max ((\<lambda>u. [0, 1, 2, 3] ! u) ` set U0)"
    by (simp add: max_def split: if_splits)
  with U0(1-3) big f BaseCase_fourPath show ?thesis by blast
qed

section \<open>The bound returned by BMSSP\<close>

lemma list_update_Cons_numeral:
  "(x # xs)[numeral n := y] = x # xs[pred_numeral n := y]"
  by (simp add: numeral_eq_Suc)


lemmas solver_eval =
  BMSSP.simps processMainLoop.simps FindPivots_def relaxKSteps_def
  numeral_2_eq_2 computePivots_def calcSize.simps
  initializeDataStructure_def NewDataStructure_def Insert_def Search_def Search_loop.simps
  newBlock_def pullAndExtract_def Pull_def sortBlock_def peekBlock_def
  BaseCase_def BaseCase_loop.simps heapPop_def heapPush_def up.simps down.simps Less_def
  Swap_def setAdd_def addToSet_def maxDist_def relaxEdges_def batchPrepend_def
  BatchPrepend_def BatchPrepend_loop.simps sortItems_def buildFinalSet_def finalizeBMSSP_def
  Infinity_cmp Let_def list_update_Cons_numeral

text \<open>
  A call whose main loop ends by the early exit: \<open>BMSSP(1, Infinity, {0})\<close> on
  \<open>tenPath\<close> with \<open>k = t = 2\<close>, so \<open>limit = 8\<close> and \<open>M = 1\<close>.  \<^verbatim>\<open>FindPivots\<close> returns
  \<open>P = {0}\<close>, \<open>W = {0, 1, 2}\<close>.  The five turns of the loop pull the vertices 0, 1, 3, 5, 7;
  the base case returns \<open>(1, {0})\<close>, \<open>(2, {1, 2})\<close>, \<open>(4, {3, 4})\<close>, \<open>(6, {5, 6})\<close> and
  \<open>(8, {7, 8})\<close>, so \<open>U\<close> has 1, 3, 5, 7 and then 9 vertices, more than 8.
\<close>

lemma BMSSP_tenPath:
  "BMSSP 20 \<lparr>G = tenPath, Dist = [0, Infinity, Infinity, Infinity, Infinity, Infinity,
       Infinity, Infinity, Infinity, Infinity], K = 2, T = 2, numWorkers = 8\<rparr> 1 Infinity [0] =
   Returns ((Infinity, [0, 1, 2, 3, 4, 5, 6, 7, 8]),
     \<lparr>G = tenPath, Dist = [0, 1, 1, 2, 3, 4, 5, 6, 7, 8], K = 2, T = 2, numWorkers = 8\<rparr>)"
  by (simp add: solver_eval tenPath_def)

lemma BMSSP_tenPath_last_turn:
  "pullAndExtract \<lparr>M = 1, B = Infinity, Count = 1,
       d0 = [\<lparr>items = [\<lparr>Key = 7, Value = 6\<rparr>], upperBound = 6\<rparr>], d1 = []\<rparr> =
     Returns (([7], Infinity), \<lparr>M = 1, B = Infinity, Count = 0, d0 = [], d1 = []\<rparr>) \<and>
   BMSSP 14 \<lparr>G = tenPath, Dist = [0, 1, 1, 2, 3, 4, 5, 6, 7, Infinity], K = 2, T = 2, numWorkers = 8\<rparr>
       0 Infinity [7] =
     Returns ((8, [7, 8]),
       \<lparr>G = tenPath, Dist = [0, 1, 1, 2, 3, 4, 5, 6, 7, 8], K = 2, T = 2, numWorkers = 8\<rparr>) \<and>
   length (addToSet [0, 1, 2, 3, 4, 5, 6] [7, 8]) = 9"
  by (simp add: solver_eval tenPath_def)

text \<open>
  Claim C2.  The claim says that a call \<open>BMSSP(l, B, S)\<close> with \<open>l \<ge> 1\<close> whose main loop
  ends because \<open>U\<close> has grown past \<open>limit\<close> returns the bound \<open>B'\<^sub>i\<close> of the last inner call,
  not the bound \<open>B\<close> of the caller.  In the code every return of \<^verbatim>\<open>BMSSP\<close> at a level
  \<open>l \<ge> 1\<close> goes through \<^verbatim>\<open>finalizeBMSSP(B, W, U)\<close>, and \<^verbatim>\<open>processMainLoop\<close> hands back the
  set only: whenever a call at level \<open>l \<ge> 1\<close> returns, the bound it returns is the bound
  it was given.
\<close>

theorem BMSSP_returns_callers_bound:
  assumes "BMSSP fuel s l Bnd S = Returns ((B', U), s')" and "l \<noteq> 0"
  shows "B' = Bnd"
  using assms(1,2)
proof (cases rule: BMSSP_elim)
  case (no_pivot P W s1)
  then show ?thesis by (auto simp: finalizeBMSSP_def split: if_splits)
next
  case (main_loop P W s1 D fuel' U0 s2)
  then show ?thesis by (auto simp: finalizeBMSSP_def split: if_splits)
qed

text \<open>
  On \<open>tenPath\<close> the last inner call returns \<open>B'\<^sub>i = 8\<close>, the set \<open>U\<close> then has
  \<open>9 > 8 = limit\<close> vertices, and the call returns \<open>Infinity\<close>.
\<close>

theorem BMSSP_returns_callers_bound_witness:
  "BMSSP 20 \<lparr>G = tenPath, Dist = [0, Infinity, Infinity, Infinity, Infinity, Infinity,
       Infinity, Infinity, Infinity, Infinity], K = 2, T = 2, numWorkers = 8\<rparr> 1 Infinity [0] =
     Returns ((Infinity, [0, 1, 2, 3, 4, 5, 6, 7, 8]),
       \<lparr>G = tenPath, Dist = [0, 1, 1, 2, 3, 4, 5, 6, 7, 8], K = 2, T = 2, numWorkers = 8\<rparr>) \<and>
   (1 :: nat) \<noteq> 0 \<and>
   pullAndExtract \<lparr>M = 1, B = Infinity, Count = 1,
       d0 = [\<lparr>items = [\<lparr>Key = 7, Value = 6\<rparr>], upperBound = 6\<rparr>], d1 = []\<rparr> =
     Returns (([7], Infinity), \<lparr>M = 1, B = Infinity, Count = 0, d0 = [], d1 = []\<rparr>) \<and>
   BMSSP 14 \<lparr>G = tenPath, Dist = [0, 1, 1, 2, 3, 4, 5, 6, 7, Infinity], K = 2, T = 2, numWorkers = 8\<rparr>
       0 Infinity [7] =
     Returns ((8, [7, 8]),
       \<lparr>G = tenPath, Dist = [0, 1, 1, 2, 3, 4, 5, 6, 7, 8], K = 2, T = 2, numWorkers = 8\<rparr>) \<and>
   2 * 2 ^ (1 * 2) < length (addToSet [0, 1, 2, 3, 4, 5, 6] [7, 8]) \<and>
   8 < Infinity"
  using BMSSP_returns_callers_bound [OF BMSSP_tenPath] BMSSP_tenPath BMSSP_tenPath_last_turn
    Infinity_large
  by simp

section \<open>The degree-reducing transform\<close>

lemma fold_concat_map:
  "fold (\<lambda>u. fold (f u) (xs u)) us = fold (\<lambda>(u, e). f u e) (concat (map (\<lambda>u. map (Pair u) (xs u)) us))"
proof (induction us)
  case Nil
  show ?case by simp
next
  case (Cons u us)
  have "fold (f u) (xs u) = fold (\<lambda>(u, e). f u e) (map (Pair u) (xs u))"
    by (simp add: fold_map comp_def)
  with Cons show ?case by simp
qed

subsection \<open>Degrees under appendEdge\<close>

lemma length_appendEdge [simp]: "length (appendEdge adj x e) = length adj"
  by (simp add: appendEdge_def)

lemma outDegree_appendEdge:
  "outDegree (appendEdge adj x e) y =
     (if x = y \<and> x < length adj then outDegree adj y + 1 else outDegree adj y)"
proof (cases "x < length adj")
  case True
  then show ?thesis by (auto simp: outDegree_def appendEdge_def)
next
  case False
  then have "adj[x := adj ! x @ [e]] = adj" by (simp add: list_update_beyond)
  with False show ?thesis by (simp add: outDegree_def appendEdge_def)
qed

lemma filter_concat_update:
  "x < length adj \<Longrightarrow>
   length (filter P (concat (adj[x := adj ! x @ [e]]))) =
     length (filter P (concat adj)) + (if P e then 1 else 0)"
proof (induction adj arbitrary: x)
  case Nil
  then show ?case by simp
next
  case (Cons a adj)
  then show ?case by (cases x) auto
qed

lemma inDegreeOf_appendEdge:
  "inDegreeOf (appendEdge adj x e) y =
     (if To e = y \<and> x < length adj then inDegreeOf adj y + 1 else inDegreeOf adj y)"
proof (cases "x < length adj")
  case True
  then show ?thesis
    using filter_concat_update [of x adj "\<lambda>e. To e = y" e]
    by (simp add: inDegreeOf_def appendEdge_def)
next
  case False
  then have "adj[x := adj ! x @ [e]] = adj" by (simp add: list_update_beyond)
  with False show ?thesis by (simp add: inDegreeOf_def appendEdge_def)
qed

lemma length_applyOps [simp]: "length (applyOps ops adj) = length adj"
  unfolding applyOps_def by (induction ops arbitrary: adj) auto

lemma outDegree_applyOps:
  "outDegree (applyOps ops adj) y \<le> outDegree adj y + length (filter (\<lambda>(x, e). x = y) ops)"
  unfolding applyOps_def
proof (induction ops arbitrary: adj)
  case Nil
  show ?case by simp
next
  case (Cons a ops)
  obtain x e where a: "a = (x, e)" by (cases a)
  show ?case using Cons [of "appendEdge adj x e"]
    by (auto simp: a outDegree_appendEdge split: if_splits)
qed

lemma inDegreeOf_applyOps:
  "inDegreeOf (applyOps ops adj) y \<le> inDegreeOf adj y + length (filter (\<lambda>(x, e). To e = y) ops)"
  unfolding applyOps_def
proof (induction ops arbitrary: adj)
  case Nil
  show ?case by simp
next
  case (Cons a ops)
  obtain x e where a: "a = (x, e)" by (cases a)
  show ?case using Cons [of "appendEdge adj x e"]
    by (auto simp: a inDegreeOf_appendEdge split: if_splits)
qed

lemma count_endpoints:
  "length (filter (\<lambda>(x, e). x = y) ops) + length (filter (\<lambda>(x, e). To e = y) ops) =
   length (filter (\<lambda>z. z = y) (endpoints ops))"
  unfolding endpoints_def by (induction ops) auto

lemma distinct_count_le_1: "distinct xs \<Longrightarrow> length (filter (\<lambda>z. z = y) xs) \<le> Suc 0"
  by (induction xs) (auto simp: filter_empty_conv)


subsection \<open>The in-degree count\<close>

lemma countInDegree_fold:
  "countInDegree g =
     fold (\<lambda>(a, e) d. d[To e := Suc (d ! To e)]) (edgesOf g) (replicate (V g) 0)"
  unfolding countInDegree_def edgesOf_def
  using fold_concat_map [of "\<lambda>u e d. d[To e := Suc (d ! To e)]" "\<lambda>u. Adj g ! u" "[0..<V g]"]
  by simp

lemma count_fold:
  "v < length d \<Longrightarrow>
   fold (\<lambda>(a, e) d. d[To e := Suc (d ! To e)]) E d ! v =
     d ! v + length (filter (\<lambda>(a, e). To e = v) E)"
proof (induction E arbitrary: d)
  case Nil
  show ?case by simp
next
  case (Cons p E)
  obtain a e where p: "p = (a, e)" by (cases p)
  have "v < length (d[To e := Suc (d ! To e)])" using Cons.prems by simp
  from Cons.IH [OF this] Cons.prems show ?case
    by (auto simp: p nth_list_update)
qed

lemma countInDegree_nth:
  "v < V g \<Longrightarrow> countInDegree g ! v = length (filter (\<lambda>(a, e). To e = v) (edgesOf g))"
  by (simp add: countInDegree_fold count_fold)

lemma out_count_aux:
  "length (filter (\<lambda>(a, e). a = u) (concat (map (\<lambda>u. map (Pair u) (xs u)) [0..<n]))) =
     (if u < n then length (xs u) else 0)"
proof (induction n)
  case 0
  show ?case by simp
next
  case (Suc n)
  have "filter (\<lambda>(a, e). a = u) (map (Pair n) (xs n)) = (if n = u then map (Pair n) (xs n) else [])"
    by (induction "xs n") auto
  with Suc show ?case by (auto simp: less_Suc_eq)
qed

lemma out_count:
  "u < V g \<Longrightarrow> length (filter (\<lambda>(a, e). a = u) (edgesOf g)) = length (Adj g ! u)"
  unfolding edgesOf_def using out_count_aux [of u "\<lambda>u. Adj g ! u" "V g"] by simp

lemma occ_edgesOf:
  "u < V g \<Longrightarrow> occ (edgesOf g) u = length (Adj g ! u) + countInDegree g ! u"
  using count_endpoints [of u "edgesOf g"]
  by (simp add: occ_def out_count countInDegree_nth)

lemma occ_le_cycleSize:
  "u < V g \<Longrightarrow> occ (edgesOf g) u \<le> cycleSize g (countInDegree g) u"
  by (simp add: occ_edgesOf cycleSize_def Let_def)

lemma cycleSize_pos: "0 < cycleSize g d u"
  by (simp add: cycleSize_def Let_def)

lemma inRange_edgesOf:
  assumes "inRange g" and "(u, e) \<in> set (edgesOf g)"
  shows "u < V g \<and> To e < V g"
  using assms by (auto simp: inRange_def edgesOf_def list_all_iff)

subsection \<open>The layout\<close>

lemma layout_fold:
  "m \<le> n \<Longrightarrow>
   fold (layoutStep g d) [0..<m] (replicate n 0, replicate n 0, 0) =
     (map (\<lambda>u. if u < m then sum (cycleSize g d) {..<u} else 0) [0..<n],
      map (\<lambda>u. if u < m then cycleSize g d u else 0) [0..<n],
      sum (cycleSize g d) {..<m})"
proof (induction m)
  case 0
  show ?case by (simp add: map_replicate_const)
next
  case (Suc m)
  then have m: "m < n" by simp
  have a: "(map (\<lambda>u. if u < m then sum (cycleSize g d) {..<u} else 0) [0..<n])
             [m := sum (cycleSize g d) {..<m}] =
           map (\<lambda>u. if u < Suc m then sum (cycleSize g d) {..<u} else 0) [0..<n]"
    using m by (intro nth_equalityI) (auto simp: nth_list_update less_Suc_eq)
  have b: "(map (\<lambda>u. if u < m then cycleSize g d u else 0) [0..<n])
             [m := cycleSize g d m] =
           map (\<lambda>u. if u < Suc m then cycleSize g d u else 0) [0..<n]"
    using m by (intro nth_equalityI) (auto simp: nth_list_update less_Suc_eq)
  have step: "layoutStep g d m (st, sz, c) = (st[m := c], sz[m := cycleSize g d m], c + cycleSize g d m)"
    for st sz c
    by (simp add: layoutStep_def cycleSize_def Let_def)
  from Suc m show ?case by (simp add: step a b)
qed

lemma layout_eq:
  "layout g d =
     (map (\<lambda>u. sum (cycleSize g d) {..<u}) [0..<V g],
      map (cycleSize g d) [0..<V g],
      sum (cycleSize g d) {..<V g})"
  unfolding layout_def using layout_fold [of "V g" "V g" g d]
  by (simp cong: map_cong)

lemma sum_prefix_le:
  fixes f :: "nat \<Rightarrow> nat"
  shows "u < m \<Longrightarrow> sum f {..<u} + f u \<le> sum f {..<m}"
proof -
  assume "u < m"
  then have "{..<Suc u} \<subseteq> {..<m}" by auto
  then have "sum f {..<Suc u} \<le> sum f {..<m}" by (intro sum_mono2) auto
  then show ?thesis by simp
qed

lemma sum_prefix_disjoint:
  fixes f :: "nat \<Rightarrow> nat"
  assumes "i < f u" "i' < f u'" "sum f {..<u} + i = sum f {..<u'} + i'"
  shows "u = u' \<and> i = i'"
proof -
  have "\<not> u < u'" using sum_prefix_le [of u u' f] assms by auto
  moreover have "\<not> u' < u" using sum_prefix_le [of u' u f] assms by auto
  ultimately have "u = u'" by simp
  with assms show ?thesis by simp
qed


subsection \<open>The cycles\<close>

lemma cycleStep_fold:
  "fst (fold (\<lambda>(u, i). cycleStep u (starts ! u) (sizes ! u) i) C (adj, nto)) =
   applyOps (map (\<lambda>(u, i). (starts ! u + i,
       \<lparr>To = starts ! u + (i + 1) mod sizes ! u, Weight = 0\<rparr>)) C) adj"
proof (induction C arbitrary: adj nto)
  case Nil
  show ?case by (simp add: applyOps_def)
next
  case (Cons p C)
  obtain u i where p: "p = (u, i)" by (cases p)
  show ?case using Cons [of "appendEdge adj (starts ! u + i)
      \<lparr>To = starts ! u + (i + 1) mod sizes ! u, Weight = 0\<rparr>" "nto[starts ! u + i := u]"]
    by (simp add: p cycleStep_def Let_def applyOps_def)
qed

lemma buildCycles_fst:
  "fst (buildCycles starts sizes n (adj, nto)) = applyOps (cycleOps starts sizes n) adj"
proof -
  have "buildCycles starts sizes n =
      fold (\<lambda>(u, i). cycleStep u (starts ! u) (sizes ! u) i) (cyclePairs sizes n)"
    unfolding buildCycles_def cyclePairs_def
    using fold_concat_map [of "\<lambda>u. cycleStep u (starts ! u) (sizes ! u)"
        "\<lambda>u. [0..<sizes ! u]" "[0..<n]"]
    by simp
  then show ?thesis by (simp add: cycleStep_fold cycleOps_def)
qed

lemma set_cyclePairs: "set (cyclePairs sizes n) = {(u, i). u < n \<and> i < sizes ! u}"
  unfolding cyclePairs_def by auto

lemma distinct_cyclePairs: "distinct (cyclePairs sizes n)"
proof (induction n)
  case 0
  show ?case by (simp add: cyclePairs_def)
next
  case (Suc n)
  have "cyclePairs sizes (Suc n) = cyclePairs sizes n @ map (Pair n) [0..<sizes ! n]"
    by (simp add: cyclePairs_def)
  moreover have "distinct (map (Pair n) [0..<sizes ! n])"
    by (simp add: distinct_map inj_on_def)
  ultimately show ?case using Suc by (auto simp: set_cyclePairs)
qed

lemma succ_mod_inj:
  assumes "i < s" "i' < s" "(i + 1) mod s = (i' + 1) mod (s::nat)"
  shows "i = i'"
proof -
  have a: "(i + 1) mod s = (if i + 1 = s then 0 else i + 1)" using assms(1) by auto
  have b: "(i' + 1) mod s = (if i' + 1 = s then 0 else i' + 1)" using assms(2) by auto
  from a b assms(3) show ?thesis by (auto split: if_splits)
qed

lemma cycleOps_degrees:
  assumes D: "\<And>u i u' i'. u < n \<Longrightarrow> u' < n \<Longrightarrow> i < sizes ! u \<Longrightarrow> i' < sizes ! u' \<Longrightarrow>
      starts ! u + i = starts ! u' + i' \<Longrightarrow> u = u' \<and> i = i'"
  shows "length (filter (\<lambda>(x, e). x = y) (cycleOps starts sizes n)) \<le> Suc 0"
    and "length (filter (\<lambda>(x, e). To e = y) (cycleOps starts sizes n)) \<le> Suc 0"
proof -
  have inj1: "inj_on (\<lambda>(u, i). starts ! u + i) (set (cyclePairs sizes n))"
    unfolding inj_on_def set_cyclePairs using D by auto
  have inj2: "inj_on (\<lambda>(u, i). starts ! u + (i + 1) mod sizes ! u) (set (cyclePairs sizes n))"
    unfolding inj_on_def set_cyclePairs
  proof (clarify)
    fix u i u' i'
    assume h: "u < n" "i < sizes ! u" "u' < n" "i' < sizes ! u'"
      "starts ! u + (i + 1) mod sizes ! u = starts ! u' + (i' + 1) mod sizes ! u'"
    have "(i + 1) mod sizes ! u < sizes ! u" "(i' + 1) mod sizes ! u' < sizes ! u'"
      using h by auto
    from D [OF h(1) h(3) this h(5)] have "u = u'" "(i + 1) mod sizes ! u = (i' + 1) mod sizes ! u'"
      by auto
    with succ_mod_inj [of i "sizes ! u" i'] h show "u = u' \<and> i = i'" by auto
  qed
  have d1: "distinct (map fst (cycleOps starts sizes n))"
    using inj1 [unfolded case_prod_beta] distinct_cyclePairs [of sizes n]
    by (simp add: cycleOps_def distinct_map comp_def case_prod_beta)
  have d2: "distinct (map (\<lambda>p. To (snd p)) (cycleOps starts sizes n))"
    using inj2 [unfolded case_prod_beta] distinct_cyclePairs [of sizes n]
    by (simp add: cycleOps_def distinct_map comp_def case_prod_beta)
  have "length (filter (\<lambda>(x, e). x = y) ops) = length (filter (\<lambda>z. z = y) (map fst ops))"
    for ops :: "(nat \<times> Edge) list"
    by (induction ops) auto
  with distinct_count_le_1 [OF d1, of y]
  show "length (filter (\<lambda>(x, e). x = y) (cycleOps starts sizes n)) \<le> Suc 0" by simp
  have "length (filter (\<lambda>(x, e). To e = y) ops) =
      length (filter (\<lambda>z. z = y) (map (\<lambda>p. To (snd p)) ops))"
    for ops :: "(nat \<times> Edge) list"
    by (induction ops) auto
  with distinct_count_le_1 [OF d2, of y]
  show "length (filter (\<lambda>(x, e). To e = y) (cycleOps starts sizes n)) \<le> Suc 0" by simp
qed

subsection \<open>The real edges\<close>

lemma realStep_fold:
  "snd (fold (\<lambda>(u, e). realStep starts u e) E (slots, adj)) =
   applyOps (realOps starts E slots) adj"
proof (induction E arbitrary: slots adj)
  case Nil
  show ?case by (simp add: applyOps_def)
next
  case (Cons p E)
  obtain u e where p: "p = (u, e)" by (cases p)
  show ?case
    using Cons [of "(slots[u := slots ! u + 1])[To e := (slots[u := slots ! u + 1]) ! To e + 1]"
        "appendEdge adj (starts ! u + slots ! u)
           \<lparr>To = starts ! To e + (slots[u := slots ! u + 1]) ! To e, Weight = Weight e\<rparr>"]
    by (simp add: p realStep_def Let_def applyOps_def)
qed

lemma addRealEdges_snd:
  "snd (addRealEdges g starts (slots, adj)) = applyOps (realOps starts (edgesOf g) slots) adj"
proof -
  have "addRealEdges g starts = fold (\<lambda>(u, e). realStep starts u e) (edgesOf g)"
    unfolding addRealEdges_def edgesOf_def
    using fold_concat_map [of "realStep starts" "\<lambda>u. Adj g ! u" "[0..<V g]"]
    by simp
  then show ?thesis by (simp add: realStep_fold)
qed

lemma occ_Cons:
  "occ ((u, e) # E) w = (if u = w then 1 else 0) + (if To e = w then 1 else 0) + occ E w"
  by (simp add: occ_def endpoints_def)

lemma realOps_endpoints:
  assumes D: "\<And>u i u' i'. u < n \<Longrightarrow> u' < n \<Longrightarrow> i < sizes ! u \<Longrightarrow> i' < sizes ! u' \<Longrightarrow>
      starts ! u + i = starts ! u' + i' \<Longrightarrow> u = u' \<and> i = i'"
  shows "length slots = n \<Longrightarrow> (\<And>u e. (u, e) \<in> set E \<Longrightarrow> u < n \<and> To e < n) \<Longrightarrow>
     (\<And>w. w < n \<Longrightarrow> slots ! w + occ E w \<le> sizes ! w) \<Longrightarrow>
     distinct (endpoints (realOps starts E slots)) \<and>
     (\<forall>z \<in> set (endpoints (realOps starts E slots)).
        \<exists>u i. u < n \<and> slots ! u \<le> i \<and> i < sizes ! u \<and> z = starts ! u + i)"
proof (induction E arbitrary: slots)
  case Nil
  show ?case by (simp add: endpoints_def)
next
  case (Cons p E)
  obtain u e where p: "p = (u, e)" by (cases p)
  define v where "v = To e"
  define slots1 where "slots1 = slots[u := slots ! u + 1]"
  define slots2 where "slots2 = slots1[v := slots1 ! v + 1]"
  have un: "u < n" and vn: "v < n" using Cons.prems(2) [of u e] by (auto simp: p v_def)
  have len: "length slots = n" by (rule Cons.prems(1))
  have s1: "slots1 ! w = slots ! w + (if u = w then 1 else 0)" if "w < n" for w
    using that len by (auto simp: slots1_def nth_list_update)
  have s2: "slots2 ! w = slots ! w + (if u = w then 1 else 0) + (if v = w then 1 else 0)"
    if "w < n" for w
    using that len s1 [of w] s1 [of v] vn by (auto simp: slots2_def slots1_def nth_list_update)
  have bound: "slots ! w + (if u = w then 1 else 0) + (if v = w then 1 else 0) + occ E w
      \<le> sizes ! w" if "w < n" for w
    using Cons.prems(3) [OF that] by (simp add: p occ_Cons v_def)
  have len2: "length slots2 = n" using len by (simp add: slots2_def slots1_def)
  have ih: "distinct (endpoints (realOps starts E slots2)) \<and>
     (\<forall>z \<in> set (endpoints (realOps starts E slots2)).
        \<exists>u i. u < n \<and> slots2 ! u \<le> i \<and> i < sizes ! u \<and> z = starts ! u + i)"
  proof (rule Cons.IH [OF len2])
    show "u < n \<and> To e < n" if "(u, e) \<in> set E" for u e
      using Cons.prems(2) [of u e] that by simp
    show "slots2 ! w + occ E w \<le> sizes ! w" if "w < n" for w
      using bound [OF that] s2 [OF that] by simp
  qed
  define uNode where "uNode = starts ! u + slots ! u"
  define vNode where "vNode = starts ! v + slots1 ! v"
  have eq: "endpoints (realOps starts (p # E) slots) =
      uNode # vNode # endpoints (realOps starts E slots2)"
    by (simp add: p endpoints_def uNode_def vNode_def slots1_def slots2_def v_def)
  have ub: "slots ! u < sizes ! u" using bound [OF un] by simp
  have vb: "slots1 ! v < sizes ! v" using bound [OF vn] s1 [OF vn] by (simp split: if_splits)
  have ne: "uNode \<noteq> vNode"
  proof
    assume "uNode = vNode"
    then have "starts ! u + slots ! u = starts ! v + slots1 ! v"
      by (simp add: uNode_def vNode_def)
    from D [OF un vn ub vb this] have "u = v" "slots ! u = slots1 ! v" by auto
    with s1 [OF vn] show False by simp
  qed
  have unot: "uNode \<notin> set (endpoints (realOps starts E slots2))"
  proof
    assume "uNode \<in> set (endpoints (realOps starts E slots2))"
    with ih obtain u' i where h: "u' < n" "slots2 ! u' \<le> i" "i < sizes ! u'"
      "uNode = starts ! u' + i" by blast
    from h(4) have "starts ! u + slots ! u = starts ! u' + i" by (simp add: uNode_def)
    from D [OF un h(1) ub h(3) this] have "u = u'" "slots ! u = i" by auto
    with h(2) s2 [OF un] show False by simp
  qed
  have vnot: "vNode \<notin> set (endpoints (realOps starts E slots2))"
  proof
    assume "vNode \<in> set (endpoints (realOps starts E slots2))"
    with ih obtain u' i where h: "u' < n" "slots2 ! u' \<le> i" "i < sizes ! u'"
      "vNode = starts ! u' + i" by blast
    from h(4) have "starts ! v + slots1 ! v = starts ! u' + i" by (simp add: vNode_def)
    from D [OF vn h(1) vb h(3) this] have "v = u'" "slots1 ! v = i" by auto
    with h(2) s2 [OF vn] s1 [OF vn] show False by simp
  qed
  have r1: "\<exists>u' i. u' < n \<and> slots ! u' \<le> i \<and> i < sizes ! u' \<and> uNode = starts ! u' + i"
    using un ub by (auto simp: uNode_def)
  have r2: "\<exists>u' i. u' < n \<and> slots ! u' \<le> i \<and> i < sizes ! u' \<and> vNode = starts ! u' + i"
  proof -
    have "slots ! v \<le> slots1 ! v" using s1 [OF vn] by simp
    then show ?thesis using vn vb by (auto simp: vNode_def)
  qed
  have r3: "\<exists>u' i. u' < n \<and> slots ! u' \<le> i \<and> i < sizes ! u' \<and> z = starts ! u' + i"
    if "z \<in> set (endpoints (realOps starts E slots2))" for z
  proof -
    from ih that obtain u' i where h: "u' < n" "slots2 ! u' \<le> i" "i < sizes ! u'"
      "z = starts ! u' + i" by blast
    have "slots ! u' \<le> i" using h(2) s2 [OF h(1)] by simp
    with h show ?thesis by blast
  qed
  show ?case unfolding eq using ih ne unot vnot r1 r2 r3 by auto
qed


subsection \<open>The transformed graph\<close>

lemma ToConstantDegree_eq:
  assumes "ToConstantDegree g = Returns tg"
  shows "inRange g"
    and "V (TG tg) = nodesOf g"
    and "OriginalTo tg = startsOf g"
    and "Adj (TG tg) =
      applyOps (realOps (startsOf g) (edgesOf g) (replicate (V g) 0))
        (applyOps (cycleOps (startsOf g) (sizesOf g) (V g)) (replicate (nodesOf g) []))"
proof -
  show r: "inRange g" using assms by (auto simp: ToConstantDegree_def split: if_splits)
  have "tg = \<lparr>TG = \<lparr>V = nodesOf g,
        Adj = snd (addRealEdges g (startsOf g) (replicate (V g) 0,
          fst (buildCycles (startsOf g) (sizesOf g) (V g)
            (replicate (nodesOf g) [], replicate (nodesOf g) 0))))\<rparr>,
      OriginalTo = startsOf g,
      NewToOrigin = snd (buildCycles (startsOf g) (sizesOf g) (V g)
            (replicate (nodesOf g) [], replicate (nodesOf g) 0))\<rparr>"
    using assms r
    by (simp add: ToConstantDegree_def layout_eq Let_def case_prod_beta
        startsOf_def sizesOf_def nodesOf_def)
  then show "V (TG tg) = nodesOf g" "OriginalTo tg = startsOf g"
    "Adj (TG tg) =
      applyOps (realOps (startsOf g) (edgesOf g) (replicate (V g) 0))
        (applyOps (cycleOps (startsOf g) (sizesOf g) (V g)) (replicate (nodesOf g) []))"
    by (simp_all add: addRealEdges_snd buildCycles_fst)
qed

lemma layout_disjoint:
  assumes "u < V g" "u' < V g" "i < sizesOf g ! u" "i' < sizesOf g ! u'"
    "startsOf g ! u + i = startsOf g ! u' + i'"
  shows "u = u' \<and> i = i'"
  using assms sum_prefix_disjoint [of i "cycleSize g (countInDegree g)" u i' u']
  by (simp add: startsOf_def sizesOf_def)

lemma layout_inside:
  assumes "u < V g" "i < sizesOf g ! u"
  shows "startsOf g ! u + i < nodesOf g"
  using assms sum_prefix_le [of u "V g" "cycleSize g (countInDegree g)"]
  by (simp add: startsOf_def sizesOf_def nodesOf_def)

lemma real_endpoints:
  assumes "inRange g"
  shows "distinct (endpoints (realOps (startsOf g) (edgesOf g) (replicate (V g) 0)))"
    and "z \<in> set (endpoints (realOps (startsOf g) (edgesOf g) (replicate (V g) 0))) \<Longrightarrow>
         z < nodesOf g"
proof -
  have *: "distinct (endpoints (realOps (startsOf g) (edgesOf g) (replicate (V g) 0))) \<and>
     (\<forall>z \<in> set (endpoints (realOps (startsOf g) (edgesOf g) (replicate (V g) 0))).
        \<exists>u i. u < V g \<and> replicate (V g) 0 ! u \<le> i \<and> i < sizesOf g ! u \<and>
          z = startsOf g ! u + i)"
  proof (rule realOps_endpoints [where n = "V g" and sizes = "sizesOf g"])
    show "u = u' \<and> i = i'" if "u < V g" "u' < V g" "i < sizesOf g ! u" "i' < sizesOf g ! u'"
      "startsOf g ! u + i = startsOf g ! u' + i'" for u i u' i'
      using that by (rule layout_disjoint)
    show "length (replicate (V g) (0::nat)) = V g" by simp
    show "u < V g \<and> To e < V g" if "(u, e) \<in> set (edgesOf g)" for u e
      using assms that by (rule inRange_edgesOf)
    show "replicate (V g) 0 ! w + occ (edgesOf g) w \<le> sizesOf g ! w" if "w < V g" for w
      using that occ_le_cycleSize [OF that] by (simp add: sizesOf_def)
  qed
  from * show "distinct (endpoints (realOps (startsOf g) (edgesOf g) (replicate (V g) 0)))"
    by simp
  assume "z \<in> set (endpoints (realOps (startsOf g) (edgesOf g) (replicate (V g) 0)))"
  with * obtain u i where "u < V g" "i < sizesOf g ! u" "z = startsOf g ! u + i" by blast
  then show "z < nodesOf g" using layout_inside by simp
qed

lemma outDegree_replicate: "x < N \<Longrightarrow> outDegree (replicate N []) x = 0"
  by (simp add: outDegree_def)

lemma inDegreeOf_replicate: "inDegreeOf (replicate N []) x = 0"
  by (simp add: inDegreeOf_def)

lemma transform_degrees:
  assumes "ToConstantDegree g = Returns tg" and "x < V (TG tg)"
  shows "outDegree (Adj (TG tg)) x \<le> 2 \<and> inDegreeOf (Adj (TG tg)) x \<le> 2 \<and>
         outDegree (Adj (TG tg)) x + inDegreeOf (Adj (TG tg)) x \<le> 3"
proof -
  note eq = ToConstantDegree_eq [OF assms(1)]
  define cyc where "cyc = cycleOps (startsOf g) (sizesOf g) (V g)"
  define rl where "rl = realOps (startsOf g) (edgesOf g) (replicate (V g) 0)"
  define adjC where "adjC = applyOps cyc (replicate (nodesOf g) [])"
  have adj: "Adj (TG tg) = applyOps rl adjC"
    using eq(4) by (simp add: cyc_def rl_def adjC_def)
  have xN: "x < nodesOf g" using assms(2) eq(2) by simp
  have c1: "length (filter (\<lambda>(a, e). a = x) cyc) \<le> Suc 0"
    and c2: "length (filter (\<lambda>(a, e). To e = x) cyc) \<le> Suc 0"
    unfolding cyc_def
    by (rule cycleOps_degrees [where n = "V g"], rule layout_disjoint, assumption+)+
  have "length (filter (\<lambda>z. z = x) (endpoints rl)) \<le> Suc 0"
    unfolding rl_def by (rule distinct_count_le_1) (rule real_endpoints(1) [OF eq(1)])
  then have r: "length (filter (\<lambda>(a, e). a = x) rl) + length (filter (\<lambda>(a, e). To e = x) rl)
      \<le> Suc 0"
    by (simp add: count_endpoints)
  have o1: "outDegree adjC x \<le> length (filter (\<lambda>(a, e). a = x) cyc)"
    using outDegree_applyOps [of cyc "replicate (nodesOf g) []" x] xN
    by (simp add: adjC_def outDegree_replicate)
  have i1: "inDegreeOf adjC x \<le> length (filter (\<lambda>(a, e). To e = x) cyc)"
    using inDegreeOf_applyOps [of cyc "replicate (nodesOf g) []" x]
    by (simp add: adjC_def inDegreeOf_replicate)
  have o2: "outDegree (Adj (TG tg)) x \<le> outDegree adjC x + length (filter (\<lambda>(a, e). a = x) rl)"
    unfolding adj by (rule outDegree_applyOps)
  have i2: "inDegreeOf (Adj (TG tg)) x \<le>
      inDegreeOf adjC x + length (filter (\<lambda>(a, e). To e = x) rl)"
    unfolding adj by (rule inDegreeOf_applyOps)
  from c1 c2 r o1 i1 o2 i2 show ?thesis by linarith
qed


lemma length_concat_applyOps:
  "(\<And>x e. (x, e) \<in> set ops \<Longrightarrow> x < length adj) \<Longrightarrow>
   length (concat (applyOps ops adj)) = length (concat adj) + length ops"
  unfolding applyOps_def
proof (induction ops arbitrary: adj)
  case Nil
  show ?case by simp
next
  case (Cons p ops)
  obtain x e where p: "p = (x, e)" by (cases p)
  have x: "x < length adj" using Cons.prems [of x e] by (simp add: p)
  have "length (concat (fold (\<lambda>(x, e) adj. appendEdge adj x e) ops (appendEdge adj x e))) =
      length (concat (appendEdge adj x e)) + length ops"
    using Cons.prems by (intro Cons.IH) auto
  moreover have "length (concat (appendEdge adj x e)) = length (concat adj) + 1"
    using filter_concat_update [OF x, of "\<lambda>_. True" e] by (simp add: appendEdge_def)
  ultimately show ?case by (simp add: p)
qed

lemma length_cyclePairs: "length (cyclePairs sizes n) = sum (\<lambda>u. sizes ! u) {..<n}"
  by (induction n) (auto simp: cyclePairs_def)

lemma length_cycleOps: "length (cycleOps (startsOf g) (sizesOf g) (V g)) = nodesOf g"
  by (simp add: cycleOps_def length_cyclePairs nodesOf_def sizesOf_def)

lemma length_realOps: "length (realOps starts E slots) = length E"
  by (induction starts E slots rule: realOps.induct) auto

text \<open>
  The transformed graph has one row per vertex and \<open>V' + |E|\<close> edges: every append of
  the cycle loop and of the real-edge loop lands in an existing row, so neither loop
  indexes outside the new graph.
\<close>

lemma transform_edge_count:
  assumes "ToConstantDegree g = Returns tg"
  shows "length (Adj (TG tg)) = V (TG tg)"
    and "length (concat (Adj (TG tg))) = V (TG tg) + length (edgesOf g)"
proof -
  note eq = ToConstantDegree_eq [OF assms]
  show "length (Adj (TG tg)) = V (TG tg)" by (simp add: eq(2,4))
  have a: "length (concat (applyOps (cycleOps (startsOf g) (sizesOf g) (V g))
      (replicate (nodesOf g) []))) = nodesOf g"
  proof -
    have "x < length (replicate (nodesOf g) ([] :: Edge list))"
      if "(x, e) \<in> set (cycleOps (startsOf g) (sizesOf g) (V g))" for x e
      using that layout_inside by (auto simp: cycleOps_def set_cyclePairs)
    from length_concat_applyOps [OF this] show ?thesis by (simp add: length_cycleOps)
  qed
  have "x < length (applyOps (cycleOps (startsOf g) (sizesOf g) (V g))
      (replicate (nodesOf g) []))"
    if "(x, e) \<in> set (realOps (startsOf g) (edgesOf g) (replicate (V g) 0))" for x e
  proof -
    from that have "x \<in> set (endpoints (realOps (startsOf g) (edgesOf g) (replicate (V g) 0)))"
      by (force simp: endpoints_def)
    from real_endpoints(2) [OF eq(1) this] show ?thesis by simp
  qed
  from length_concat_applyOps [OF this] a
  show "length (concat (Adj (TG tg))) = V (TG tg) + length (edgesOf g)"
    by (simp add: eq(2,4) length_realOps)
qed


text \<open>
  Claim C9.  For every graph that \<^verbatim>\<open>ToConstantDegree\<close> accepts (the rows \<open>0 \<dots> V - 1\<close>
  exist and their edges point into \<open>[0, V)\<close>; on any other graph the first loop
  panics), the transform returns a graph with one row per vertex in which every vertex
  has out-degree at most 2 and in-degree at most 2, and at most three edge ends in
  all: the cycle successor, the cycle predecessor and at most one real edge.
\<close>

theorem transformed_degree_at_most_2:
  assumes "inRange g"
  shows "\<exists>tg. ToConstantDegree g = Returns tg \<and> length (Adj (TG tg)) = V (TG tg) \<and>
     (\<forall>x<V (TG tg). outDegree (Adj (TG tg)) x \<le> 2 \<and> inDegreeOf (Adj (TG tg)) x \<le> 2 \<and>
        outDegree (Adj (TG tg)) x + inDegreeOf (Adj (TG tg)) x \<le> 3)"
proof -
  from assms obtain tg where tg: "ToConstantDegree g = Returns tg"
    by (simp add: ToConstantDegree_def Let_def case_prod_beta)
  from transform_degrees [OF tg] transform_edge_count(1) [OF tg] tg show ?thesis by blast
qed

lemma upt_numeral_right:
  "[m..<numeral n] = (if m \<le> pred_numeral n then [m..<pred_numeral n] @ [pred_numeral n] else [])"
  by (simp add: numeral_eq_Suc)

lemma replicate_numeral: "replicate (numeral n) x = x # replicate (pred_numeral n) x"
  by (simp add: numeral_eq_Suc)

text \<open>The transform of \<open>threeGraph\<close>: eight vertices, twelve edges.\<close>

lemma ToConstantDegree_threeGraph:
  "ToConstantDegree threeGraph =
     Returns \<lparr>TG = \<lparr>V = 8,
           Adj =
             [[\<lparr>To = 1, Weight = 0\<rparr>, \<lparr>To = 2, Weight = 5\<rparr>],
              [\<lparr>To = 0, Weight = 0\<rparr>, \<lparr>To = 4, Weight = 7\<rparr>],
              [\<lparr>To = 3, Weight = 0\<rparr>],
              [\<lparr>To = 2, Weight = 0\<rparr>, \<lparr>To = 5, Weight = 1\<rparr>],
              [\<lparr>To = 5, Weight = 0\<rparr>], [\<lparr>To = 6, Weight = 0\<rparr>],
              [\<lparr>To = 7, Weight = 0\<rparr>, \<lparr>To = 7, Weight = 3\<rparr>],
              [\<lparr>To = 4, Weight = 0\<rparr>]]\<rparr>,
     OriginalTo = [0, 2, 4], NewToOrigin = [0, 0, 1, 1, 2, 2, 2, 2]\<rparr>"
  by (simp add: ToConstantDegree_def threeGraph_def inRange_def countInDegree_def layout_def
      layoutStep_def buildCycles_def cycleStep_def addRealEdges_def realStep_def appendEdge_def
      list_update_Cons_numeral upt_numeral_right replicate_numeral Let_def)

lemma inRange_threeGraph: "inRange threeGraph"
  by (simp add: threeGraph_def inRange_def upt_numeral_right)


theorem transformed_degree_at_most_2_witness:
  "inRange threeGraph \<and>
   (\<exists>tg. ToConstantDegree threeGraph = Returns tg \<and> V (TG tg) = 8 \<and>
      length (Adj (TG tg)) = 8 \<and>
      (\<forall>x<8. outDegree (Adj (TG tg)) x \<le> 2 \<and> inDegreeOf (Adj (TG tg)) x \<le> 2 \<and>
         outDegree (Adj (TG tg)) x + inDegreeOf (Adj (TG tg)) x \<le> 3) \<and>
      outDegree (Adj (TG tg)) 0 = 2 \<and> inDegreeOf (Adj (TG tg)) 2 = 2)"
  using transformed_degree_at_most_2 [OF inRange_threeGraph] ToConstantDegree_threeGraph
    inRange_threeGraph
  by (auto simp: outDegree_def inDegreeOf_def)

section \<open>The parallel relaxation\<close>

text \<open>
  The recursion does start the goroutines: \<open>BMSSP(2, Infinity, {0, 1, 2, 3, 4})\<close> on
  \<open>zeroChain\<close>, with the five sources at distance 0 and eight workers, gets the five
  vertices \<open>1, 2, 3, 4, 5\<close> back from its first inner call and relaxes them in parallel.
\<close>

lemma div_5_2: "Suc (Suc (Suc (Suc (Suc 0)))) div Suc (Suc 0) = Suc (Suc 0)"
proof -
  have "(5::nat) div 2 = 2" by simp
  then show ?thesis by (simp add: numeral_eq_Suc)
qed

lemma BMSSP_starts_goroutines:
  "BMSSP 50 \<lparr>G = zeroChain, Dist = [0, 0, 0, 0, 0, Infinity], K = 2, T = 2, numWorkers = 8\<rparr>
     2 Infinity [0, 1, 2, 3, 4] = Races"
  by (simp add: solver_eval zeroChain_def replicate_numeral split_def div_5_2)



section \<open>The pivots\<close>

subsection \<open>The relaxation rounds\<close>


lemma length_mark_fold [simp]:
  "length (fold (\<lambda>x inW. inW[x := True]) S acc) = length acc"
  by (induction S arbitrary: acc) auto






subsection \<open>The subtree sizes\<close>






lemma enc_pos: "Computed 0 \<notin> set sl \<Longrightarrow> i < length sl \<Longrightarrow>
  (0 < enc (sl ! i)) = (\<exists>c. sl ! i = Computed c) \<and> (enc (sl ! i) = - 1) = (sl ! i = OnStack)"
  by (cases "sl ! i") (auto simp: in_set_conv_nth)















end
